theory Spec2Isabelle
  imports Main "HOL-Library.Word"
begin

unbundle bit_operations_syntax

section \<open>Results and errors\<close>

text \<open>
  \<^verbatim>\<open>cmp_result\<close> and \<^verbatim>\<open>pred_result\<close> are the enumerations returned by
  \<^verbatim>\<open>value::cmp\<close> and by predicates.  Exceptions, failed assertions and reads past the
  end of a container are values of \<open>error\<close>; a function that can raise returns
  \<open>error + 'a\<close>.
\<close>

datatype cmp_result = cmp_less | cmp_equal | cmp_greater | cmp_fail

datatype pred_result = pred_yes | pred_no | pred_fail

datatype error =
    Runtime_error string
  | Assertion_failure
  | Out_of_range

text \<open>
  Modelled from the spec: the helper \<^verbatim>\<open>compare (a, b)\<close> is declared outside the files
  at hand; it orders two values of one ordered type and never fails.
\<close>

definition compare :: "'a::linorder \<Rightarrow> 'a \<Rightarrow> cmp_result" where
  "compare a b = (if a < b then cmp_less else if b < a then cmp_greater else cmp_equal)"

text \<open>\<^verbatim>\<open>pred_result (bool)\<close>: the conversion used by the predicate overloads.\<close>

definition pred_result_of :: "bool \<Rightarrow> pred_result" where
  "pred_result_of b = (if b then pred_yes else pred_no)"


section \<open>Values\<close>

text \<open>
  A constant is a number with a domain; of the domain only \<^verbatim>\<open>safe_arith ()\<close> is used
  by the code at hand.  A coverage is a list of ranges \<open>[start, start + length)\<close> over
  64-bit addresses.
\<close>

record constant_dom =
  dom_name :: string
  safe_arith :: bool

record "constant" =
  cst_value :: int
  cst_dom :: constant_dom

record cov_range =
  range_start :: "64 word"
  range_length :: "64 word"

type_synonym coverage = "cov_range list"

text \<open>
  Every value carries its position in the stream that produced it (first field of each
  constructor).  \<open>Value_dom\<close> stands for the values of the debug-info library, which the
  engine only moves around: a position, the index of the registered type and a handle.
\<close>

datatype "value" =
    Value_cst nat "constant"
  | Value_str nat string
  | Value_seq nat "value list"
  | Value_aset nat coverage
  | Value_dom nat nat nat

datatype value_type = T_CONST | T_STR | T_SEQ | T_ASET | T_DOM nat

fun get_type :: "value \<Rightarrow> value_type" where
  "get_type (Value_cst p c) = T_CONST"
| "get_type (Value_str p s) = T_STR"
| "get_type (Value_seq p vs) = T_SEQ"
| "get_type (Value_aset p c) = T_ASET"
| "get_type (Value_dom p t h) = T_DOM t"

fun get_pos :: "value \<Rightarrow> nat" where
  "get_pos (Value_cst p c) = p"
| "get_pos (Value_str p s) = p"
| "get_pos (Value_seq p vs) = p"
| "get_pos (Value_aset p c) = p"
| "get_pos (Value_dom p t h) = p"

fun set_pos :: "nat \<Rightarrow> value \<Rightarrow> value" where
  "set_pos n (Value_cst p c) = Value_cst n c"
| "set_pos n (Value_str p s) = Value_str n s"
| "set_pos n (Value_seq p vs) = Value_seq n vs"
| "set_pos n (Value_aset p c) = Value_aset n c"
| "set_pos n (Value_dom p t h) = Value_dom n t h"

text \<open>
  \<^verbatim>\<open>value_seq::clone\<close> copies the position and clones every element
  (\<^verbatim>\<open>clone_seq\<close>); the other variants copy their payload.
\<close>

fun clone :: "value \<Rightarrow> value" where
  "clone (Value_seq p vs) = Value_seq p (map clone vs)"
| "clone (Value_cst p c) = Value_cst p c"
| "clone (Value_str p s) = Value_str p s"
| "clone (Value_aset p c) = Value_aset p c"
| "clone (Value_dom p t h) = Value_dom p t h"


section \<open>The stack (stack.hh)\<close>

text \<open>
  \<^verbatim>\<open>m_values\<close> is a vector with the top of the stack at its back, \<^verbatim>\<open>m_profile\<close> the
  cached selector.  Modelled from the spec: \<^verbatim>\<open>selector.hh\<close> is not among the files at
  hand; \<^verbatim>\<open>selector::sel_t\<close> is taken as an unsigned 32-bit integer and
  \<^verbatim>\<open>selector::W\<close> as 4, the number of 8-bit type codes it holds.  The type codes are
  handed out at start-up by \<^verbatim>\<open>value_type::alloc\<close>; the functions below take the
  assignment as the parameter \<open>tc\<close>.  Depths are \<^verbatim>\<open>unsigned\<close>, that is 32-bit words.
\<close>

record stack =
  m_values :: "value list"
  m_profile :: "32 word"

definition W :: nat where
  "W = 4"

definition empty_stack :: stack where
  "empty_stack = \<lparr>m_values = [], m_profile = 0\<rparr>"

definition size_stack :: "stack \<Rightarrow> nat" where
  "size_stack stk = length (m_values stk)"

definition profile :: "stack \<Rightarrow> 32 word" where
  "profile stk = m_profile stk"

definition push :: "(value_type \<Rightarrow> 8 word) \<Rightarrow> value \<Rightarrow> stack \<Rightarrow> stack" where
  "push tc vp stk =
     stk\<lparr>m_profile := push_bit 8 (m_profile stk) OR ucast (tc (get_type vp)),
         m_values := m_values stk @ [vp]\<rparr>"

definition need :: "32 word \<Rightarrow> stack \<Rightarrow> error + unit" where
  "need depth stk =
     (if unat depth > length (m_values stk)
      then Inl (Runtime_error ''stack overflow'')
      else Inr ())"

text \<open>
  \<^verbatim>\<open>get (depth)\<close> checks \<^verbatim>\<open>need (depth + 1)\<close>, the sum taken in \<^verbatim>\<open>unsigned\<close>
  arithmetic, and then reads \<^verbatim>\<open>*(m_values.rbegin () + depth)\<close>.  A read past the end of
  the vector is \<open>Out_of_range\<close>.
\<close>

definition get :: "32 word \<Rightarrow> stack \<Rightarrow> error + value" where
  "get depth stk =
     (case need (depth + 1) stk of
        Inl e \<Rightarrow> Inl e
      | Inr _ \<Rightarrow>
          if unat depth < length (m_values stk)
          then Inr (rev (m_values stk) ! unat depth)
          else Inl Out_of_range)"

definition top :: "stack \<Rightarrow> error + value" where
  "top stk =
     (case need 1 stk of
        Inl e \<Rightarrow> Inl e
      | Inr _ \<Rightarrow> Inr (last (m_values stk)))"

definition pop :: "(value_type \<Rightarrow> 8 word) \<Rightarrow> stack \<Rightarrow> error + (value \<times> stack)" where
  "pop tc stk =
     (case need 1 stk of
        Inl e \<Rightarrow> Inl e
      | Inr _ \<Rightarrow>
          let ret = last (m_values stk);
              stk1 = stk\<lparr>m_values := butlast (m_values stk),
                         m_profile := drop_bit 8 (m_profile stk)\<rparr>
          in if length (m_values stk1) \<ge> W
             then (case get (of_nat (W - 1)) stk1 of
                     Inl e \<Rightarrow> Inl e
                   | Inr v \<Rightarrow>
                       Inr (ret, stk1\<lparr>m_profile := m_profile stk1 OR
                                 push_bit (8 * (W - 1)) (ucast (tc (get_type v)))\<rparr>))
             else Inr (ret, stk1))"

text \<open>
  The loop of \<^verbatim>\<open>drop\<close>: \<^verbatim>\<open>for (d = 0; d < W && d < size; ++d)\<close>.  The shift
  \<^verbatim>\<open>code << (d * 8)\<close> is computed in \<^verbatim>\<open>int\<close> and converted to \<^verbatim>\<open>sel_t\<close>, which keeps
  its low 32 bits.
\<close>

function drop_loop :: "(value_type \<Rightarrow> 8 word) \<Rightarrow> nat \<Rightarrow> stack \<Rightarrow> error + stack" where
  "drop_loop tc d stk =
     (if d < W \<and> d < length (m_values stk)
      then (case get (of_nat d) stk of
              Inl e \<Rightarrow> Inl e
            | Inr v \<Rightarrow>
                drop_loop tc (d + 1)
                  (stk\<lparr>m_profile := m_profile stk OR
                         push_bit (d * 8) (ucast (tc (get_type v)))\<rparr>))
      else Inr stk)"
  by pat_completeness auto
termination
  by (relation "measure (\<lambda>(tc, d, stk). W - d)") auto

declare drop_loop.simps [simp del]

definition drop_stack :: "(value_type \<Rightarrow> 8 word) \<Rightarrow> 32 word \<Rightarrow> stack \<Rightarrow> error + stack" where
  "drop_stack tc n stk =
     (case need n stk of
        Inl e \<Rightarrow> Inl e
      | Inr _ \<Rightarrow>
          drop_loop tc 0
            (stk\<lparr>m_values := take (length (m_values stk) - unat n) (m_values stk),
                 m_profile := 0\<rparr>))"

text \<open>
  The selector as the specification describes it: the type codes of the top \<open>W\<close> values,
  the code of the top value in the lowest byte, zero where the stack is shallower.
\<close>

fun cat_codes :: "8 word list \<Rightarrow> 32 word" where
  "cat_codes [] = 0"
| "cat_codes (c # cs) = ucast c OR push_bit 8 (cat_codes cs)"

definition selector_of :: "(value_type \<Rightarrow> 8 word) \<Rightarrow> value list \<Rightarrow> 32 word" where
  "selector_of tc vs = cat_codes (map (\<lambda>v. tc (get_type v)) (take W (rev vs)))"


text \<open>An assignment of type codes for the worked examples.\<close>

fun example_codes :: "value_type \<Rightarrow> 8 word" where
  "example_codes T_CONST = 1"
| "example_codes T_STR = 2"
| "example_codes T_SEQ = 3"
| "example_codes T_ASET = 4"
| "example_codes (T_DOM n) = 5"


subsection \<open>The cached selector\<close>

lemma list4_cases:
  obtains "cs = []" | a where "cs = [a]" | a b where "cs = [a, b]"
  | a b c where "cs = [a, b, c]" | a b c d r where "cs = a # b # c # d # r"
  by (metis list.exhaust)

lemma drop_bit_ucast8 [simp]: "drop_bit 8 (ucast (c :: 8 word) :: 32 word) = 0"
  by (rule bit_word_eqI) (auto simp: bit_simps dest: bit_imp_le_length)

lemma drop_bit_push_ucast8:
  "k \<le> 16 \<Longrightarrow>
   drop_bit 8 (push_bit (8 + k) (ucast (c :: 8 word) :: 32 word)) = push_bit k (ucast c)"
  by (rule bit_word_eqI) (auto simp: bit_simps dest: bit_imp_le_length)

lemma drop_bit_push_ucast8_simps [simp]:
  "drop_bit 8 (push_bit 8 (ucast (c :: 8 word) :: 32 word)) = ucast c"
  "drop_bit 8 (push_bit 16 (ucast (c :: 8 word) :: 32 word)) = push_bit 8 (ucast c)"
  "drop_bit 8 (push_bit 24 (ucast (c :: 8 word) :: 32 word)) = push_bit 16 (ucast c)"
  using drop_bit_push_ucast8 [of 0 c] drop_bit_push_ucast8 [of 8 c]
    drop_bit_push_ucast8 [of 16 c]
  by simp_all

text \<open>Shifting a selector left by one code loses the fourth code.\<close>

lemma cat_codes_push:
  "push_bit 8 (cat_codes (take 4 cs)) OR ucast c = cat_codes (take 4 (c # cs))"
  by (cases cs rule: list4_cases) (simp_all add: ac_simps)

lemma cat_codes_pop_short:
  "length cs < 4 \<Longrightarrow> drop_bit 8 (cat_codes (take 4 (c # cs))) = cat_codes (take 4 cs)"
  by (cases cs rule: list4_cases) (simp_all add: ac_simps)

lemma cat_codes_pop_long:
  "length cs \<ge> 4 \<Longrightarrow>
   drop_bit 8 (cat_codes (take 4 (c # cs))) OR push_bit 24 (ucast (cs ! 3)) =
   cat_codes (take 4 cs)"
  by (cases cs rule: list4_cases) (simp_all add: ac_simps)

lemma cat_codes_take_Suc:
  assumes "d < length cs" and "d < 4"
  shows "cat_codes (take (Suc d) cs) =
         cat_codes (take d cs) OR push_bit (d * 8) (ucast (cs ! d))"
proof -
  from assms consider "d = 0" | "d = 1" | "d = 2" | "d = 3" by linarith
  then show ?thesis
    using assms
    by (cases; cases cs rule: list4_cases)
      (simp_all add: ac_simps numeral_2_eq_2 numeral_3_eq_3)
qed

definition codes_of :: "(value_type \<Rightarrow> 8 word) \<Rightarrow> value list \<Rightarrow> 8 word list" where
  "codes_of tc vs = map (\<lambda>v. tc (get_type v)) (rev vs)"

lemma selector_of_codes: "selector_of tc vs = cat_codes (take 4 (codes_of tc vs))"
  by (simp add: selector_of_def codes_of_def W_def take_map)

lemma codes_of_snoc: "codes_of tc (vs @ [v]) = tc (get_type v) # codes_of tc vs"
  by (simp add: codes_of_def)

lemma codes_of_nth: "n < length vs \<Longrightarrow> codes_of tc vs ! n = tc (get_type (rev vs ! n))"
  by (simp add: codes_of_def)

lemma length_codes_of [simp]: "length (codes_of tc vs) = length vs"
  by (simp add: codes_of_def)

lemma push_selector:
  assumes "m_profile stk = selector_of tc (m_values stk)"
  shows "m_profile (push tc v stk) = selector_of tc (m_values (push tc v stk))"
  using assms cat_codes_push [of "codes_of tc (m_values stk)" "tc (get_type v)"]
  by (simp add: push_def selector_of_codes codes_of_snoc)

lemma get_small:
  assumes "n < length (m_values stk)" and "n < 4"
  shows "get (of_nat n) stk = Inr (rev (m_values stk) ! n)"
proof -
  from assms consider "n = 0" | "n = 1" | "n = 2" | "n = 3" by linarith
  then show ?thesis
    using assms by cases (simp_all add: get_def need_def)
qed

lemma pop_selector:
  assumes inv: "m_profile stk = selector_of tc (m_values stk)"
    and ok: "pop tc stk = Inr (v, stk')"
  shows "m_profile stk' = selector_of tc (m_values stk')"
proof -
  from ok have ne: "m_values stk \<noteq> []"
    by (auto simp: pop_def need_def split: if_splits)
  then obtain ws x where vs: "m_values stk = ws @ [x]"
    by (metis rev_exhaust)
  let ?cs = "codes_of tc ws"
  have prof: "m_profile stk = cat_codes (take 4 (tc (get_type x) # ?cs))"
    using inv by (simp add: selector_of_codes vs codes_of_snoc)
  show ?thesis
  proof (cases "length ws \<ge> 4")
    case True
    let ?stk1 = "stk\<lparr>m_values := ws, m_profile := drop_bit 8 (m_profile stk)\<rparr>"
    have g: "get (of_nat 3) ?stk1 = Inr (rev ws ! 3)"
      using True get_small [of 3 ?stk1] by simp
    have c3: "?cs ! 3 = tc (get_type (rev ws ! 3))"
      using True by (simp add: codes_of_nth)
    from ok True g have "stk' = ?stk1\<lparr>m_profile := drop_bit 8 (m_profile stk) OR
                                 push_bit 24 (ucast (tc (get_type (rev ws ! 3))))\<rparr>"
      by (auto simp: pop_def need_def vs W_def Let_def split: if_splits)
    then show ?thesis
      using cat_codes_pop_long [of ?cs "tc (get_type x)"] True
      by (simp add: selector_of_codes prof c3)
  next
    case False
    from ok False
    have "stk' = stk\<lparr>m_values := ws, m_profile := drop_bit 8 (m_profile stk)\<rparr>"
      by (auto simp: pop_def need_def vs W_def Let_def split: if_splits)
    then show ?thesis
      using cat_codes_pop_short [of ?cs "tc (get_type x)"] False
      by (simp add: selector_of_codes prof)
  qed
qed

text \<open>The loop of \<^verbatim>\<open>drop\<close> has rebuilt the codes of the top \<open>d\<close> values after \<open>d\<close> rounds.\<close>

lemma drop_loop_selector:
  "d \<le> 4 \<Longrightarrow> d \<le> length (m_values stk) \<Longrightarrow>
   m_profile stk = cat_codes (take d (codes_of tc (m_values stk))) \<Longrightarrow>
   \<exists>stk'. drop_loop tc d stk = Inr stk' \<and> m_values stk' = m_values stk \<and>
          m_profile stk' = selector_of tc (m_values stk)"
proof (induction tc d stk rule: drop_loop.induct)
  case (1 tc d stk)
  show ?case
  proof (cases "d < W \<and> d < length (m_values stk)")
    case True
    then have d: "d < 4" "d < length (m_values stk)" by (simp_all add: W_def)
    have g: "get (of_nat d) stk = Inr (rev (m_values stk) ! d)"
      using d by (simp add: get_small)
    let ?stk1 = "stk\<lparr>m_profile := m_profile stk OR
                   push_bit (d * 8) (ucast (tc (get_type (rev (m_values stk) ! d))))\<rparr>"
    have "m_profile ?stk1 = cat_codes (take (d + 1) (codes_of tc (m_values ?stk1)))"
      using d "1.prems"(3) cat_codes_take_Suc [of d "codes_of tc (m_values stk)"]
      by (simp add: codes_of_nth)
    with "1.IH" [OF True g] d "1.prems"
    have "\<exists>stk'. drop_loop tc (d + 1) ?stk1 = Inr stk' \<and> m_values stk' = m_values ?stk1 \<and>
          m_profile stk' = selector_of tc (m_values ?stk1)"
      by simp
    then show ?thesis
      using True g by (subst drop_loop.simps) simp
  next
    case False
    then have "d = 4 \<or> d = length (m_values stk)"
      using "1.prems" by (auto simp: W_def)
    then have "take d (codes_of tc (m_values stk)) = take 4 (codes_of tc (m_values stk))"
      using "1.prems" by auto
    moreover have "drop_loop tc d stk = Inr stk"
      by (subst drop_loop.simps) (simp only: False if_False)
    ultimately show ?thesis
      using "1.prems" by (simp add: selector_of_codes)
  qed
qed

lemma drop_stack_result:
  assumes "unat n \<le> length (m_values stk)"
  shows "\<exists>stk'. drop_stack tc n stk = Inr stk' \<and>
           m_values stk' = take (length (m_values stk) - unat n) (m_values stk) \<and>
           m_profile stk' = selector_of tc (m_values stk')"
proof -
  let ?stk1 = "stk\<lparr>m_values := take (length (m_values stk) - unat n) (m_values stk),
                 m_profile := 0\<rparr>"
  have "\<exists>s. drop_loop tc 0 ?stk1 = Inr s \<and> m_values s = m_values ?stk1 \<and>
          m_profile s = selector_of tc (m_values ?stk1)"
    by (rule drop_loop_selector) simp_all
  then show ?thesis
    using assms by (auto simp: drop_stack_def need_def)
qed

lemma drop_selector:
  assumes ok: "drop_stack tc n stk = Inr stk'"
  shows "m_profile stk' = selector_of tc (m_values stk')"
proof -
  from ok have "unat n \<le> length (m_values stk)"
    by (auto simp: drop_stack_def need_def split: if_splits)
  from drop_stack_result [OF this, of tc] ok show ?thesis by auto
qed

text \<open>
  Claim C4.  A fresh stack has the selector of its (empty) contents, and whenever the
  cached selector of a stack equals the concatenation of the 8-bit type codes of its top
  \<open>W\<close> values (the top value's code in the lowest byte, zero where the stack is
  shallower), it does so again after a push, after a successful pop and after a
  successful drop.
\<close>

theorem selector_is_cached_profile:
  "m_profile empty_stack = selector_of tc (m_values empty_stack) \<and>
   (m_profile stk = selector_of tc (m_values stk) \<longrightarrow>
      m_profile (push tc v stk) = selector_of tc (m_values (push tc v stk)) \<and>
      (\<forall>x stk'. pop tc stk = Inr (x, stk') \<longrightarrow>
          m_profile stk' = selector_of tc (m_values stk')) \<and>
      (\<forall>stk'. drop_stack tc n stk = Inr stk' \<longrightarrow>
          m_profile stk' = selector_of tc (m_values stk')))"
proof (intro conjI impI allI)
  show "m_profile empty_stack = selector_of tc (m_values empty_stack)"
    by (simp add: empty_stack_def selector_of_def)
next
  assume "m_profile stk = selector_of tc (m_values stk)"
  then show "m_profile (push tc v stk) = selector_of tc (m_values (push tc v stk))"
    by (rule push_selector)
next
  fix x stk'
  assume "m_profile stk = selector_of tc (m_values stk)" and "pop tc stk = Inr (x, stk')"
  then show "m_profile stk' = selector_of tc (m_values stk')"
    by (rule pop_selector)
next
  fix stk'
  assume "drop_stack tc n stk = Inr stk'"
  then show "m_profile stk' = selector_of tc (m_values stk')"
    by (rule drop_selector)
qed


lemma pop_result:
  assumes "m_values stk \<noteq> []"
  shows "\<exists>stk'. pop tc stk = Inr (last (m_values stk), stk') \<and>
           m_values stk' = butlast (m_values stk)"
proof -
  let ?stk1 = "stk\<lparr>m_values := butlast (m_values stk),
                 m_profile := drop_bit 8 (m_profile stk)\<rparr>"
  from assms have n: "need 1 stk = Inr ()"
    by (cases "m_values stk") (simp_all add: need_def)
  show ?thesis
  proof (cases "length (m_values ?stk1) \<ge> W")
    case True
    then have "get (of_nat (W - 1)) ?stk1 = Inr (rev (m_values ?stk1) ! 3)"
      using get_small [of 3 ?stk1] by (simp add: W_def)
    with True n show ?thesis
      by (simp add: pop_def Let_def)
  next
    case False
    with n show ?thesis
      by (simp add: pop_def Let_def)
  qed
qed

definition example_stack :: stack where
  "example_stack =
     \<lparr>m_values = [Value_str 0 ''a'', Value_dom 0 1 1, Value_seq 0 [], Value_str 1 ''b'',
                  Value_str 0 ''e''],
      m_profile = 0x05030202\<rparr>"

theorem selector_is_cached_profile_witness:
  "m_profile example_stack = selector_of example_codes (m_values example_stack) \<and>
   m_profile (push example_codes (Value_seq 0 []) example_stack) =
     selector_of example_codes
       (m_values (push example_codes (Value_seq 0 []) example_stack)) \<and>
   (\<exists>x stk'. pop example_codes example_stack = Inr (x, stk') \<and>
      m_profile stk' = selector_of example_codes (m_values stk')) \<and>
   (\<exists>stk'. drop_stack example_codes 2 example_stack = Inr stk' \<and>
      m_profile stk' = selector_of example_codes (m_values stk'))"
proof -
  have h: "m_profile example_stack = selector_of example_codes (m_values example_stack)"
    by (simp add: example_stack_def selector_of_def W_def)
  have p: "\<exists>x stk'. pop example_codes example_stack = Inr (x, stk')"
    using pop_result [of example_stack example_codes] by (auto simp: example_stack_def)
  have d: "\<exists>stk'. drop_stack example_codes 2 example_stack = Inr stk'"
    using drop_stack_result [of 2 example_stack example_codes]
    by (auto simp: example_stack_def)
  from h p d
    selector_is_cached_profile [of example_codes example_stack "Value_seq 0 []" 2]
  show ?thesis by blast
qed


subsection \<open>Underflow\<close>

text \<open>
  Claim C7.  An operation that requires more values than the stack holds aborts with
  an exception: every operation of the stack checks its depth through \<^verbatim>\<open>need\<close>, which
  throws \<^verbatim>\<open>std::runtime_error ("stack overflow")\<close>.  So do \<^verbatim>\<open>pop\<close> and \<^verbatim>\<open>top\<close> on the
  empty stack, \<^verbatim>\<open>need\<close> and \<^verbatim>\<open>drop\<close> with a depth above the size, and \<^verbatim>\<open>get\<close> with a
  depth at or above the size.  The depth of \<^verbatim>\<open>get\<close> is below \<open>2 ^ 32 - 1\<close>: the callers
  pass 0, 1, \<open>W - 1\<close> or an index below the size.
\<close>

theorem underflow_raises:
  "(m_values stk = [] \<longrightarrow>
      pop tc stk = Inl (Runtime_error ''stack overflow'') \<and>
      top stk = Inl (Runtime_error ''stack overflow'')) \<and>
   (length (m_values stk) < unat d \<longrightarrow>
      need d stk = Inl (Runtime_error ''stack overflow'') \<and>
      drop_stack tc d stk = Inl (Runtime_error ''stack overflow'')) \<and>
   (length (m_values stk) \<le> unat d \<and> d \<noteq> - 1 \<longrightarrow>
      get d stk = Inl (Runtime_error ''stack overflow''))"
proof (intro conjI impI)
  assume "length (m_values stk) \<le> unat d \<and> d \<noteq> - 1"
  then have "length (m_values stk) < unat (d + 1)"
    by (metis add.commute add_eq_0_iff2 le_imp_less_Suc unatSuc)
  then show "get d stk = Inl (Runtime_error ''stack overflow'')"
    by (simp add: get_def need_def)
qed (simp_all add: pop_def top_def need_def drop_stack_def)

theorem underflow_raises_witness:
  "pop example_codes empty_stack = Inl (Runtime_error ''stack overflow'') \<and>
   top empty_stack = Inl (Runtime_error ''stack overflow'') \<and>
   need 6 example_stack = Inl (Runtime_error ''stack overflow'') \<and>
   drop_stack example_codes 6 example_stack = Inl (Runtime_error ''stack overflow'') \<and>
   get 5 example_stack = Inl (Runtime_error ''stack overflow'') \<and>
   get 0 empty_stack = Inl (Runtime_error ''stack overflow'')"
  using underflow_raises [of empty_stack example_codes 0]
    underflow_raises [of example_stack example_codes 6]
    underflow_raises [of example_stack example_codes 5]
  by (simp add: empty_stack_def example_stack_def)


text \<open>
  The check of \<^verbatim>\<open>get\<close> is \<^verbatim>\<open>need (depth + 1)\<close>, in unsigned arithmetic.  At the depth
  \<open>2 ^ 32 - 1\<close>, which no caller passes, the sum is 0 and the check passes on every
  stack.
\<close>

lemma get_max_depth_not_checked:
  "need (4294967295 + 1) empty_stack = Inr () \<and>
   get 4294967295 empty_stack = Inl Out_of_range \<and>
   get 4294967295 empty_stack \<noteq> Inl (Runtime_error ''stack overflow'')"
  by (simp add: get_def need_def empty_stack_def)



section \<open>Sequences (value-seq.cc)\<close>

subsection \<open>Comparison\<close>

text \<open>
  \<^verbatim>\<open>compare_sequences (sa, sb, cmp)\<close> runs \<^verbatim>\<open>std::mismatch\<close> over \<open>sa\<close> and \<open>sb\<close>: it
  stops at the first pair that \<open>cmp\<close> does not find equal and returns what \<open>cmp\<close> said
  there, or \<open>equal\<close> at the end of \<open>sa\<close>.  The callable asserts that the result is not
  \<open>fail\<close>.  \<open>sb\<close> shorter than \<open>sa\<close> would be read past its end.
\<close>

fun compare_sequences ::
  "(value \<Rightarrow> value \<Rightarrow> error + cmp_result) \<Rightarrow> value list \<Rightarrow> value list \<Rightarrow> error + cmp_result"
where
  "compare_sequences cmp [] sb = Inr cmp_equal"
| "compare_sequences cmp (a # sa) [] = Inl Out_of_range"
| "compare_sequences cmp (a # sa) (b # sb) =
     (case cmp a b of
        Inl e \<Rightarrow> Inl e
      | Inr ret \<Rightarrow>
          if ret = cmp_fail then Inl Assertion_failure
          else if ret = cmp_equal then compare_sequences cmp sa sb
          else Inr ret)"

lemma compare_sequences_cong [fundef_cong]:
  assumes "sa = sa'" and "sb = sb'"
    and "\<And>a b. a \<in> set sa' \<Longrightarrow> b \<in> set sb' \<Longrightarrow> cmp a b = cmp' a b"
  shows "compare_sequences cmp sa sb = compare_sequences cmp' sa' sb'"
  unfolding assms(1,2) using assms(3)
proof (induction sa' arbitrary: sb')
  case Nil
  show ?case by simp
next
  case (Cons a sa')
  then show ?case
    by (cases sb') (auto split: sum.splits)
qed

text \<open>
  \<^verbatim>\<open>value_seq::cmp\<close>.  Types are compared by their codes.  The \<^verbatim>\<open>cmp\<close> of the other
  variants is defined outside the files at hand and is the parameter \<open>leaf\<close>.
\<close>

fun cmp_value ::
  "(value_type \<Rightarrow> 8 word) \<Rightarrow> (value \<Rightarrow> value \<Rightarrow> cmp_result) \<Rightarrow> value \<Rightarrow> value \<Rightarrow>
   error + cmp_result"
where
  "cmp_value tc leaf (Value_seq p sa) that =
     (case that of
        Value_seq q sb \<Rightarrow>
          (let ret = compare (length sa) (length sb)
           in if ret \<noteq> cmp_equal then Inr ret
              else
                (case compare_sequences
                        (\<lambda>a b. Inr (compare (tc (get_type a)) (tc (get_type b)))) sa sb of
                   Inl e \<Rightarrow> Inl e
                 | Inr ret \<Rightarrow>
                     if ret \<noteq> cmp_equal then Inr ret
                     else compare_sequences (\<lambda>a b. cmp_value tc leaf a b) sa sb))
      | _ \<Rightarrow> Inr cmp_fail)"
| "cmp_value tc leaf (Value_cst p c) that = Inr (leaf (Value_cst p c) that)"
| "cmp_value tc leaf (Value_str p s) that = Inr (leaf (Value_str p s) that)"
| "cmp_value tc leaf (Value_aset p c) that = Inr (leaf (Value_aset p c) that)"
| "cmp_value tc leaf (Value_dom p t h) that = Inr (leaf (Value_dom p t h) that)"

text \<open>
  The element-wise comparison in the words of the specification: the outcome at the
  first position where the two sequences differ, \<open>equal\<close> when they differ nowhere.
\<close>

definition first_difference :: "'r \<Rightarrow> 'r list \<Rightarrow> 'r" where
  "first_difference eq rs = (case filter (\<lambda>r. r \<noteq> eq) rs of [] \<Rightarrow> eq | r # _ \<Rightarrow> r)"

definition assert_not_fail :: "error + cmp_result \<Rightarrow> error + cmp_result" where
  "assert_not_fail r = (if r = Inr cmp_fail then Inl Assertion_failure else r)"


subsection \<open>elem and relem\<close>

text \<open>
  \<^verbatim>\<open>seq_elem_producer_base\<close> holds the sequence and the index of the next element;
  \<^verbatim>\<open>next\<close> returns a clone of that element stamped with the index, or null.
\<close>

record seq_elem_producer_base =
  m_seq :: "value list"
  m_idx :: nat

definition seq_elem_producer_next ::
  "seq_elem_producer_base \<Rightarrow> value option \<times> seq_elem_producer_base" where
  "seq_elem_producer_next st =
     (if m_idx st < length (m_seq st)
      then (let v = clone (m_seq st ! m_idx st)
            in (Some (set_pos (m_idx st) v), st\<lparr>m_idx := m_idx st + 1\<rparr>))
      else (None, st))"


definition op_elem_seq_operate :: "value list \<Rightarrow> seq_elem_producer_base" where
  "op_elem_seq_operate a = \<lparr>m_seq = a, m_idx = 0\<rparr>"


text \<open>The values a producer yields, in order, until it returns null.\<close>

function elem_drain :: "seq_elem_producer_base \<Rightarrow> value list" where
  "elem_drain st =
     (case seq_elem_producer_next st of
        (None, st') \<Rightarrow> []
      | (Some v, st') \<Rightarrow> v # elem_drain st')"
  by pat_completeness auto
termination
  by (relation "measure (\<lambda>st. length (m_seq st) - m_idx st)")
    (auto simp: seq_elem_producer_next_def Let_def split: if_splits)

declare elem_drain.simps [simp del]




text \<open>
  Parameters for the worked examples: a domain, constants in it, and a comparison for
  the variants other than sequences (constants by value, handles of one type by number,
  strings and address sets equal or incomparable).
\<close>

definition dec :: constant_dom where
  "dec = \<lparr>dom_name = ''dec'', safe_arith = True\<rparr>"

definition example_cst :: "int \<Rightarrow> value" where
  "example_cst n = Value_cst 0 \<lparr>cst_value = n, cst_dom = dec\<rparr>"


fun example_leaf :: "value \<Rightarrow> value \<Rightarrow> cmp_result" where
  "example_leaf (Value_cst p c) (Value_cst q d) = compare (cst_value c) (cst_value d)"
| "example_leaf (Value_str p s) (Value_str q t) = (if s = t then cmp_equal else cmp_fail)"
| "example_leaf (Value_aset p c) (Value_aset q d) = (if c = d then cmp_equal else cmp_fail)"
| "example_leaf (Value_dom p t h) (Value_dom q u k) =
     (if t = u then compare h k else cmp_fail)"
| "example_leaf v w = cmp_fail"


lemma example_leaf_refl: "\<forall>v. get_type v \<noteq> T_SEQ \<longrightarrow> example_leaf v v = cmp_equal"
proof (intro allI impI)
  fix v assume "get_type v \<noteq> T_SEQ"
  then show "example_leaf v v = cmp_equal"
    by (cases v) (simp_all add: compare_def)
qed

lemma example_leaf_set_pos: "\<forall>v w n. example_leaf (set_pos n v) w = example_leaf v w"
proof (intro allI)
  fix v w n
  show "example_leaf (set_pos n v) w = example_leaf v w"
    by (cases v; cases w) simp_all
qed



subsection \<open>Properties of elem and relem\<close>

lemma clone_id [simp]: "clone v = v"
  by (induction v) (simp_all add: map_idI)

lemma elem_drain_from:
  "elem_drain \<lparr>m_seq = xs, m_idx = i\<rparr> = map (\<lambda>j. set_pos j (xs ! j)) [i..<length xs]"
proof (induction "length xs - i" arbitrary: i)
  case 0
  then show ?case
    by (subst elem_drain.simps) (simp add: seq_elem_producer_next_def)
next
  case (Suc n)
  then have lt: "i < length xs" and n: "n = length xs - Suc i" by simp_all
  from Suc.hyps(1) [OF n] lt show ?case
    by (subst elem_drain.simps) (simp add: seq_elem_producer_next_def upt_conv_Cons)
qed


lemma map2_upt_nth:
  "map2 f [0..<length ys] ys = map (\<lambda>j. f j (ys ! j)) [0..<length ys]"
  by (rule nth_equalityI) simp_all

lemma elem_drain_operate:
  "elem_drain (op_elem_seq_operate xs) = map2 set_pos [0..<length xs] xs"
  by (simp add: op_elem_seq_operate_def elem_drain_from map2_upt_nth)


lemma get_pos_set_pos [simp]: "get_pos (set_pos n v) = n"
  by (cases v) simp_all








subsection \<open>Properties of the comparison\<close>

lemma first_difference_Nil [simp]: "first_difference eq [] = eq"
  by (simp add: first_difference_def)

lemma first_difference_Cons [simp]:
  "first_difference eq (r # rs) = (if r = eq then first_difference eq rs else r)"
  by (simp add: first_difference_def)

lemma compare_sequences_first_difference:
  "length sa \<le> length sb \<Longrightarrow>
   compare_sequences cmp sa sb =
   first_difference (Inr cmp_equal) (map2 (\<lambda>a b. assert_not_fail (cmp a b)) sa sb)"
proof (induction sa arbitrary: sb)
  case Nil
  show ?case by simp
next
  case (Cons a sa)
  then obtain b sb' where sb: "sb = b # sb'" by (cases sb) auto
  with Cons show ?case
    by (auto simp: assert_not_fail_def split: sum.splits)
qed

lemma compare_not_fail [simp]: "compare x y \<noteq> cmp_fail"
  by (simp add: compare_def)

lemma first_difference_Inr:
  "first_difference (Inr eq) (map Inr rs) = Inr (first_difference eq rs)"
  by (induction rs) auto

lemma compare_sequences_types:
  "length sa \<le> length sb \<Longrightarrow>
   compare_sequences (\<lambda>a b. Inr (compare (f a) (f b))) sa sb =
   Inr (first_difference cmp_equal (map2 (\<lambda>a b. compare (f a) (f b)) sa sb))"
proof (induction sa arbitrary: sb)
  case Nil
  show ?case by simp
next
  case (Cons a sa)
  then obtain b sb' where sb: "sb = b # sb'" by (cases sb) auto
  with Cons show ?case by simp
qed


text \<open>
  Claim C9.  Two sequences are ordered by length first: a shorter sequence is less than
  a longer one whatever the elements.  Sequences of one length are compared element by
  element, first by the types of their elements (the outcome is that of the first
  position where the types differ), then, when all types agree, by the values (the
  outcome is that of the first position where the values are not equal, a \<open>fail\<close> there
  trips the assertion).  A sequence compared with a value that is not a sequence gives
  \<open>fail\<close>.
\<close>

theorem value_seq_cmp_order:
  "(length sa < length sb \<longrightarrow>
      cmp_value tc leaf (Value_seq p sa) (Value_seq q sb) = Inr cmp_less) \<and>
   (length sb < length sa \<longrightarrow>
      cmp_value tc leaf (Value_seq p sa) (Value_seq q sb) = Inr cmp_greater) \<and>
   (length sa = length sb \<longrightarrow>
      cmp_value tc leaf (Value_seq p sa) (Value_seq q sb) =
        (let t = first_difference cmp_equal
                   (map2 (\<lambda>a b. compare (tc (get_type a)) (tc (get_type b))) sa sb)
         in if t \<noteq> cmp_equal then Inr t
            else first_difference (Inr cmp_equal)
                   (map2 (\<lambda>a b. assert_not_fail (cmp_value tc leaf a b)) sa sb))) \<and>
   (get_type that \<noteq> T_SEQ \<longrightarrow> cmp_value tc leaf (Value_seq p sa) that = Inr cmp_fail)"
proof (intro conjI impI)
  assume "length sa < length sb"
  then show "cmp_value tc leaf (Value_seq p sa) (Value_seq q sb) = Inr cmp_less"
    by (simp add: compare_def)
next
  assume "length sb < length sa"
  then show "cmp_value tc leaf (Value_seq p sa) (Value_seq q sb) = Inr cmp_greater"
    by (simp add: compare_def)
next
  assume eq: "length sa = length sb"
  then have c: "compare (length sa) (length sb) = cmp_equal"
    by (simp add: compare_def)
  show "cmp_value tc leaf (Value_seq p sa) (Value_seq q sb) =
        (let t = first_difference cmp_equal
                   (map2 (\<lambda>a b. compare (tc (get_type a)) (tc (get_type b))) sa sb)
         in if t \<noteq> cmp_equal then Inr t
            else first_difference (Inr cmp_equal)
                   (map2 (\<lambda>a b. assert_not_fail (cmp_value tc leaf a b)) sa sb))"
  proof -
    have le: "length sa \<le> length sb" using eq by simp
    have "cmp_value tc leaf (Value_seq p sa) (Value_seq q sb) =
          (case compare_sequences
                  (\<lambda>a b. Inr (compare (tc (get_type a)) (tc (get_type b)))) sa sb of
             Inl e \<Rightarrow> Inl e
           | Inr ret \<Rightarrow>
               if ret \<noteq> cmp_equal then Inr ret
               else compare_sequences (\<lambda>a b. cmp_value tc leaf a b) sa sb)"
      by (simp add: c)
    then show ?thesis
      by (simp add: Let_def compare_sequences_types [OF le]
          compare_sequences_first_difference [OF le])
  qed
next
  assume "get_type that \<noteq> T_SEQ"
  then show "cmp_value tc leaf (Value_seq p sa) that = Inr cmp_fail"
    by (cases that) simp_all
qed

theorem value_seq_cmp_order_witness:
  "cmp_value example_codes example_leaf
     (Value_seq 0 [Value_str 0 ''zz'']) (Value_seq 0 [example_cst 1, example_cst 2]) =
     Inr cmp_less \<and>
   cmp_value example_codes example_leaf
     (Value_seq 0 [example_cst 1, example_cst 2]) (Value_seq 0 [Value_str 0 ''zz'']) =
     Inr cmp_greater \<and>
   cmp_value example_codes example_leaf
     (Value_seq 0 [example_cst 5, example_cst 1])
     (Value_seq 0 [example_cst 3, Value_str 0 ''a'']) = Inr cmp_less \<and>
   cmp_value example_codes example_leaf
     (Value_seq 0 [example_cst 5, example_cst 1])
     (Value_seq 0 [example_cst 5, example_cst 3]) = Inr cmp_less \<and>
   cmp_value example_codes example_leaf (Value_seq 0 [example_cst 5]) (example_cst 5) =
     Inr cmp_fail"
proof -
  note a = value_seq_cmp_order
    [of "[Value_str 0 ''zz'']" "[example_cst 1, example_cst 2]" example_codes example_leaf 0 0
      "example_cst 5"]
  note b = value_seq_cmp_order
    [of "[example_cst 1, example_cst 2]" "[Value_str 0 ''zz'']" example_codes example_leaf 0 0
      "example_cst 5"]
  note c = value_seq_cmp_order
    [of "[example_cst 5, example_cst 1]" "[example_cst 3, Value_str 0 ''a'']"
      example_codes example_leaf 0 0 "example_cst 5"]
  note d = value_seq_cmp_order
    [of "[example_cst 5, example_cst 1]" "[example_cst 5, example_cst 3]"
      example_codes example_leaf 0 0 "example_cst 5"]
  note e = value_seq_cmp_order
    [of "[example_cst 5]" "[]" example_codes example_leaf 0 0 "example_cst 5"]
  have 1: "cmp_value example_codes example_leaf
     (Value_seq 0 [Value_str 0 ''zz'']) (Value_seq 0 [example_cst 1, example_cst 2]) =
     Inr cmp_less"
    using a by simp
  have 2: "cmp_value example_codes example_leaf
     (Value_seq 0 [example_cst 1, example_cst 2]) (Value_seq 0 [Value_str 0 ''zz'']) =
     Inr cmp_greater"
    using b by simp
  have 3: "cmp_value example_codes example_leaf
     (Value_seq 0 [example_cst 5, example_cst 1])
     (Value_seq 0 [example_cst 3, Value_str 0 ''a'']) = Inr cmp_less"
    using c by (simp add: example_cst_def compare_def)
  have 4: "cmp_value example_codes example_leaf
     (Value_seq 0 [example_cst 5, example_cst 1])
     (Value_seq 0 [example_cst 5, example_cst 3]) = Inr cmp_less"
    using d by (simp add: example_cst_def compare_def assert_not_fail_def)
  have 5: "cmp_value example_codes example_leaf (Value_seq 0 [example_cst 5]) (example_cst 5) =
     Inr cmp_fail"
    using e by (simp add: example_cst_def)
  from 1 2 3 4 5 show ?thesis by blast
qed


section \<open>Operators (op.cc)\<close>

text \<open>
  An operator is pulled with \<^verbatim>\<open>next ()\<close>, which returns a stack or null.  The upstream
  of an operator is modelled by the list of stacks it has yet to return, and so is a
  sub-expression with its origin: a sub-expression is a function from the stack written
  to its origin to the stacks it then returns, and \<^verbatim>\<open>m_op->reset ();
  m_origin->set_next (stk)\<close> (the reset makes the assertions of \<^verbatim>\<open>set_next\<close> hold) puts
  the operator into the state \<open>prime inner stk\<close>.  Copies of stacks are the stacks
  themselves.
\<close>

definition op_next :: "'s list \<Rightarrow> 's option \<times> 's list" where
  "op_next pending = (case pending of [] \<Rightarrow> (None, []) | stk # rest \<Rightarrow> (Some stk, rest))"

definition prime :: "('s \<Rightarrow> 's list) \<Rightarrow> 's \<Rightarrow> 's list" where
  "prime inner stk = inner stk"

record 's inner_op =
  m_upstream :: "'s list"

record 's sub_op = "'s inner_op" +
  m_op :: "'s list"

fun capture_loop ::
  "(value_type \<Rightarrow> 8 word) \<Rightarrow> stack list \<Rightarrow> value list \<Rightarrow> error + (value list \<times> stack list)"
where
  "capture_loop tc [] vv = Inr (vv, [])"
| "capture_loop tc (stk2 # rest) vv =
     (case pop tc stk2 of
        Inl e \<Rightarrow> Inl e
      | Inr (v, stk2') \<Rightarrow> capture_loop tc rest (vv @ [v]))"

definition op_capture_next ::
  "(value_type \<Rightarrow> 8 word) \<Rightarrow> (stack \<Rightarrow> stack list) \<Rightarrow> stack sub_op \<Rightarrow>
   error + (stack option \<times> stack sub_op)"
where
  "op_capture_next tc inner st =
     (case op_next (m_upstream st) of
        (None, up) \<Rightarrow> Inr (None, st\<lparr>m_upstream := up\<rparr>)
      | (Some stk, up) \<Rightarrow>
          (case capture_loop tc (prime inner stk) [] of
             Inl e \<Rightarrow> Inl e
           | Inr (vv, rest) \<Rightarrow>
               Inr (Some (push tc (Value_seq 0 vv) stk),
                    st\<lparr>m_upstream := up, m_op := rest\<rparr>)))"


subsection \<open>Capture followed by elem\<close>

lemma capture_loop_tops:
  "\<forall>r \<in> set rs. m_values r \<noteq> [] \<Longrightarrow>
   capture_loop tc rs vv = Inr (vv @ map (\<lambda>r. last (m_values r)) rs, [])"
proof (induction rs arbitrary: vv)
  case Nil
  show ?case by simp
next
  case (Cons r rs)
  then have "m_values r \<noteq> []" by simp
  from pop_result [OF this, of tc] obtain r' where "pop tc r = Inr (last (m_values r), r')"
    by blast
  with Cons show ?case by simp
qed

lemma capture_loop_underflow:
  "\<exists>r \<in> set rs. m_values r = [] \<Longrightarrow>
   capture_loop tc rs vv = Inl (Runtime_error ''stack overflow'')"
proof (induction rs arbitrary: vv)
  case Nil
  then show ?case by simp
next
  case (Cons r rs)
  show ?case
  proof (cases "m_values r = []")
    case True
    then show ?thesis by (simp add: pop_def need_def)
  next
    case False
    from pop_result [OF this, of tc] obtain r' where "pop tc r = Inr (last (m_values r), r')"
      by blast
    with Cons False show ?thesis by simp
  qed
qed

lemma compare_sequences_refl:
  "\<forall>a \<in> set sa. cmp a a = Inr cmp_equal \<Longrightarrow> compare_sequences cmp sa sa = Inr cmp_equal"
  by (induction sa) simp_all

lemma cmp_value_refl:
  assumes "\<forall>v. get_type v \<noteq> T_SEQ \<longrightarrow> leaf v v = cmp_equal"
  shows "cmp_value tc leaf v v = Inr cmp_equal"
proof (induction v)
  case (Value_seq p sa)
  then have "compare_sequences (\<lambda>a b. cmp_value tc leaf a b) sa sa = Inr cmp_equal"
    by (intro compare_sequences_refl) simp
  moreover have "compare_sequences
       (\<lambda>a b. Inr (compare (tc (get_type a)) (tc (get_type b)))) sa sa = Inr cmp_equal"
    by (intro compare_sequences_refl) (simp add: compare_def)
  ultimately show ?case by (simp add: compare_def)
qed (use assms in simp_all)

lemma cmp_value_set_pos:
  assumes "\<forall>v w n. leaf (set_pos n v) w = leaf v w"
  shows "cmp_value tc leaf (set_pos n v) w = cmp_value tc leaf v w"
proof (cases v)
  case (Value_seq p sa)
  then show ?thesis by simp
next
  case (Value_cst p c)
  with assms [rule_format, of n v w] show ?thesis by simp
next
  case (Value_str p c)
  with assms [rule_format, of n v w] show ?thesis by simp
next
  case (Value_aset p c)
  with assms [rule_format, of n v w] show ?thesis by simp
next
  case (Value_dom p t h)
  with assms [rule_format, of n v w] show ?thesis by simp
qed


definition example_inner :: "stack \<Rightarrow> stack list" where
  "example_inner stk =
     [push example_codes (Value_cst 3 \<lparr>cst_value = 7, cst_dom = dec\<rparr>) stk,
      push example_codes (Value_seq 9 [Value_str 4 ''x'']) stk]"


text \<open>
  Claim C5.  On an input stack \<open>s\<close>, \<^verbatim>\<open>Capture (inner)\<close> pushes a sequence whose
  enumeration by \<^verbatim>\<open>elem\<close> yields the values that \<open>inner\<close> leaves on top of its result
  stacks for \<open>s\<close>, in the same order: the same values stamped with the positions
  \<open>0, 1, \<dots>\<close>, hence equal under \<^verbatim>\<open>cmp\<close>, which does not look at positions.  Every
  result of \<open>inner\<close> is taken to hold a value (an empty result stack makes the capture
  throw, see \<open>capture_loop_underflow\<close>), and the \<^verbatim>\<open>cmp\<close> of the variants other than
  sequences to be reflexive and blind to positions.
\<close>

theorem capture_then_elem:
  assumes tops: "\<forall>r \<in> set (inner s). m_values r \<noteq> []"
    and refl: "\<forall>v. get_type v \<noteq> T_SEQ \<longrightarrow> leaf v v = cmp_equal"
    and nopos: "\<forall>v w n. leaf (set_pos n v) w = leaf v w"
  shows "\<exists>vv st'.
           op_capture_next tc inner \<lparr>m_upstream = s # ups, m_op = rest\<rparr> =
             Inr (Some (push tc (Value_seq 0 vv) s), st') \<and>
           top (push tc (Value_seq 0 vv) s) = Inr (Value_seq 0 vv) \<and>
           elem_drain (op_elem_seq_operate vv) =
             map2 set_pos [0..<length (inner s)] (map (\<lambda>r. last (m_values r)) (inner s)) \<and>
           list_all2 (\<lambda>a b. cmp_value tc leaf a b = Inr cmp_equal)
             (elem_drain (op_elem_seq_operate vv)) (map (\<lambda>r. last (m_values r)) (inner s))"
proof -
  let ?vv = "map (\<lambda>r. last (m_values r)) (inner s)"
  have cap: "op_capture_next tc inner \<lparr>m_upstream = s # ups, m_op = rest\<rparr> =
             Inr (Some (push tc (Value_seq 0 ?vv) s), \<lparr>m_upstream = ups, m_op = []\<rparr>)"
    using capture_loop_tops [OF tops, of tc "[]"]
    by (simp add: op_capture_next_def op_next_def prime_def)
  have tp: "top (push tc (Value_seq 0 ?vv) s) = Inr (Value_seq 0 ?vv)"
    by (simp add: top_def need_def push_def)
  have el: "elem_drain (op_elem_seq_operate ?vv) = map2 set_pos [0..<length (inner s)] ?vv"
    by (simp add: elem_drain_operate)
  have r: "\<And>v. cmp_value tc leaf v v = Inr cmp_equal"
    using refl by (rule cmp_value_refl [of leaf tc])
  have p: "\<And>n v w. cmp_value tc leaf (set_pos n v) w = cmp_value tc leaf v w"
    using nopos by (rule cmp_value_set_pos [of leaf tc])
  have "list_all2 (\<lambda>a b. cmp_value tc leaf a b = Inr cmp_equal)
          (map2 set_pos [0..<length ?vv] ?vv) ?vv"
    by (rule list_all2_all_nthI) (simp_all add: r p)
  with cap tp el show ?thesis by auto
qed

theorem capture_then_elem_witness:
  "\<exists>vv st'.
     op_capture_next example_codes example_inner
       \<lparr>m_upstream = [empty_stack], m_op = []\<rparr> =
       Inr (Some (push example_codes (Value_seq 0 vv) empty_stack), st') \<and>
     top (push example_codes (Value_seq 0 vv) empty_stack) = Inr (Value_seq 0 vv) \<and>
     elem_drain (op_elem_seq_operate vv) =
       [Value_cst 0 \<lparr>cst_value = 7, cst_dom = dec\<rparr>, Value_seq 1 [Value_str 4 ''x'']] \<and>
     list_all2 (\<lambda>a b. cmp_value example_codes example_leaf a b = Inr cmp_equal)
       (elem_drain (op_elem_seq_operate vv))
       [Value_cst 3 \<lparr>cst_value = 7, cst_dom = dec\<rparr>, Value_seq 9 [Value_str 4 ''x'']]"
proof -
  have t: "\<forall>r \<in> set (example_inner empty_stack). m_values r \<noteq> []"
    by (simp add: example_inner_def push_def)
  from capture_then_elem [where inner = example_inner and s = empty_stack
      and leaf = example_leaf and tc = example_codes and ups = "[]" and rest = "[]",
      OF t example_leaf_refl example_leaf_set_pos]
  show ?thesis
    by (simp add: example_inner_def push_def empty_stack_def)
qed




section \<open>Address sets (builtin-dw.cc)\<close>

text \<open>
  \<^verbatim>\<open>addressify\<close> warns on \<^verbatim>\<open>std::cerr\<close> about a constant whose domain is not fit for
  arithmetic and about a negative value, which it replaces by 0.  The warnings are
  returned beside the value.  The number type of constants is modelled by \<open>int\<close>.
\<close>

datatype diagnostic = Warning_unsuitable "constant" | Warning_negative

definition addressify :: "constant \<Rightarrow> diagnostic list \<times> int" where
  "addressify c =
     (let w = (if \<not> safe_arith (cst_dom c) then [Warning_unsuitable c] else []);
          v = cst_value c
      in if v < 0 then (w @ [Warning_negative], 0) else (w, v))"


text \<open>
  Modelled from the spec: the number class of constants is not among the files at hand.
  The specification calls the value of a constant an arbitrary-precision integer and the
  addresses of a coverage 64-bit; \<^verbatim>\<open>uval ()\<close> is taken to read the value as an unsigned
  64-bit number.
\<close>

definition uval :: "int \<Rightarrow> 64 word" where
  "uval v = word_of_int v"


text \<open>
  Modelled from the spec: the class \<^verbatim>\<open>coverage\<close> is not among the files at hand.  A
  coverage is a sorted list of disjoint ranges \<open>[start, start + length)\<close>; empty ranges
  are forbidden and adjacent ranges merge.  \<^verbatim>\<open>add\<close> inserts a range, merging it with
  every range it overlaps or touches, and adds nothing for an empty range;
  \<^verbatim>\<open>is_covered\<close> holds when a range lies within one range of the coverage.
\<close>

definition range_end :: "cov_range \<Rightarrow> nat" where
  "range_end r = unat (range_start r) + unat (range_length r)"

fun coverage_add :: "64 word \<Rightarrow> 64 word \<Rightarrow> coverage \<Rightarrow> coverage" where
  "coverage_add start len [] =
     (if len = 0 then [] else [\<lparr>range_start = start, range_length = len\<rparr>])"
| "coverage_add start len (r # rs) =
     (if len = 0 then r # rs
      else if unat start + unat len < unat (range_start r)
      then \<lparr>range_start = start, range_length = len\<rparr> # r # rs
      else if range_end r < unat start
      then r # coverage_add start len rs
      else (let lo = min start (range_start r);
                hi = max (unat start + unat len) (range_end r)
            in coverage_add lo (of_nat (hi - unat lo)) rs))"

definition is_covered :: "64 word \<Rightarrow> 64 word \<Rightarrow> coverage \<Rightarrow> bool" where
  "is_covered start len cov =
     list_ex (\<lambda>r. unat (range_start r) \<le> unat start \<and>
                   unat start + unat len \<le> range_end r) cov"


text \<open>
  \<^verbatim>\<open>op_aset_cst_cst::operate\<close> and \<^verbatim>\<open>pred_containsp_aset_cst::result\<close>, on the constants
  and the coverage that their operands hold.
\<close>

definition op_aset_cst_cst_operate :: "constant \<Rightarrow> constant \<Rightarrow> diagnostic list \<times> value" where
  "op_aset_cst_cst_operate a b =
     (let (wa, av) = addressify a;
          (wb, bv) = addressify b;
          (av, bv) = (if av > bv then (bv, av) else (av, bv));
          cov = coverage_add (uval av) (uval (bv - av)) []
      in (wa @ wb, Value_aset 0 cov))"

definition pred_containsp_aset_cst_result ::
  "coverage \<Rightarrow> constant \<Rightarrow> diagnostic list \<times> pred_result" where
  "pred_containsp_aset_cst_result a b =
     (let (w, av) = addressify b
      in (w, pred_result_of (is_covered (uval av) 1 a)))"


definition get_coverage :: "value \<Rightarrow> coverage" where
  "get_coverage v = (case v of Value_aset p cov \<Rightarrow> cov | _ \<Rightarrow> [])"


text \<open>
  The reading of the specification: a number is in a coverage when it lies in one of its
  ranges, at or above the start and strictly below the high end.
\<close>

definition in_coverage :: "coverage \<Rightarrow> int \<Rightarrow> bool" where
  "in_coverage cov c =
     list_ex (\<lambda>r. int (unat (range_start r)) \<le> c \<and> c < int (range_end r)) cov"


definition example_constant :: "int \<Rightarrow> constant" where
  "example_constant n = \<lparr>cst_value = n, cst_dom = dec\<rparr>"


definition clamp0 :: "constant \<Rightarrow> int" where
  "clamp0 c = max 0 (cst_value c)"



subsection \<open>The aset word\<close>

lemma snd_addressify: "snd (addressify c) = clamp0 c"
  by (simp add: addressify_def clamp0_def Let_def)

lemma aset_value:
  "snd (op_aset_cst_cst_operate a b) =
   Value_aset 0
     (coverage_add (uval (min (clamp0 a) (clamp0 b)))
        (uval (max (clamp0 a) (clamp0 b) - min (clamp0 a) (clamp0 b))) [])"
proof -
  obtain wa wb where A: "addressify a = (wa, clamp0 a)" and B: "addressify b = (wb, clamp0 b)"
    using snd_addressify [of a] snd_addressify [of b] by (metis prod.collapse)
  show ?thesis
  proof (cases "clamp0 a > clamp0 b")
    case True
    then show ?thesis
      by (simp add: op_aset_cst_cst_operate_def A B min_def max_def del: coverage_add.simps)
  next
    case False
    then show ?thesis
      by (simp add: op_aset_cst_cst_operate_def A B min_def max_def del: coverage_add.simps)
  qed
qed

lemma aset_coverage:
  "get_coverage (snd (op_aset_cst_cst_operate a b)) =
   coverage_add (uval (min (clamp0 a) (clamp0 b)))
     (uval (max (clamp0 a) (clamp0 b) - min (clamp0 a) (clamp0 b))) []"
  by (simp add: aset_value get_coverage_def del: coverage_add.simps)


text \<open>
  Claim C10.  The \<^verbatim>\<open>aset\<close> word on two constants does not depend on the order of its
  operands: \<open>a b aset\<close> and \<open>b a aset\<close> yield the same address set, the range that
  starts at the lower operand and has the length of their difference.  A negative
  operand is clamped to 0 first, so the result is that of the clamped operands.
\<close>

theorem aset_operand_order:
  "snd (op_aset_cst_cst_operate a b) = snd (op_aset_cst_cst_operate b a) \<and>
   snd (op_aset_cst_cst_operate a b) =
     Value_aset 0
       (coverage_add (uval (min (clamp0 a) (clamp0 b)))
          (uval (max (clamp0 a) (clamp0 b) - min (clamp0 a) (clamp0 b))) []) \<and>
   snd (op_aset_cst_cst_operate a b) =
     snd (op_aset_cst_cst_operate (a\<lparr>cst_value := clamp0 a\<rparr>) (b\<lparr>cst_value := clamp0 b\<rparr>))"
proof -
  have c: "\<And>a. clamp0 (a\<lparr>cst_value := clamp0 a\<rparr>) = clamp0 a"
    by (simp add: clamp0_def)
  show ?thesis
    by (simp add: aset_value c min.commute max.commute del: coverage_add.simps)
qed


theorem aset_operand_order_witness:
  "snd (op_aset_cst_cst_operate (example_constant 16) (example_constant (- 4))) =
     Value_aset 0 [\<lparr>range_start = 0, range_length = 16\<rparr>] \<and>
   snd (op_aset_cst_cst_operate (example_constant (- 4)) (example_constant 16)) =
     Value_aset 0 [\<lparr>range_start = 0, range_length = 16\<rparr>]"
proof -
  let ?a = "example_constant 16" and ?b = "example_constant (- 4)"
  note t = aset_operand_order [of ?a ?b]
  from t have sym: "snd (op_aset_cst_cst_operate ?a ?b) = snd (op_aset_cst_cst_operate ?b ?a)"
    by (rule conjunct1)
  from t have "snd (op_aset_cst_cst_operate ?a ?b) =
     Value_aset 0
       (coverage_add (uval (min (clamp0 ?a) (clamp0 ?b)))
          (uval (max (clamp0 ?a) (clamp0 ?b) - min (clamp0 ?a) (clamp0 ?b))) [])"
    by (rule conjunct2 [THEN conjunct1])
  also have "\<dots> = Value_aset 0 [\<lparr>range_start = 0, range_length = 16\<rparr>]"
    by (simp add: clamp0_def example_constant_def uval_def)
  finally have "snd (op_aset_cst_cst_operate ?a ?b) =
                Value_aset 0 [\<lparr>range_start = 0, range_length = 16\<rparr>]" .
  with sym show ?thesis by simp
qed


subsection \<open>The ?contains predicate\<close>

lemma unat_uval: "0 \<le> v \<Longrightarrow> v < 2 ^ 64 \<Longrightarrow> unat (uval v) = nat v"
  by (simp add: uval_def unat_eq_nat_uint uint_word_of_int)

lemma uval_eq_0: "0 \<le> v \<Longrightarrow> v < 2 ^ 64 \<Longrightarrow> uval v = 0 \<longleftrightarrow> v = 0"
  using unat_uval [of v] unat_0_iff [of "uval v"] by simp

lemma single_range_is_covered:
  assumes "0 \<le> l" and "l < h" and "h < 2 ^ 64" and "0 \<le> c" and "c < 2 ^ 64"
  shows "is_covered (uval c) 1 [\<lparr>range_start = uval l, range_length = uval (h - l)\<rparr>] \<longleftrightarrow>
         l \<le> c \<and> c < h"
proof -
  have ul: "unat (uval l) = nat l" using assms by (intro unat_uval) linarith+
  have ud: "unat (uval (h - l)) = nat (h - l)" using assms by (intro unat_uval) linarith+
  have uc: "unat (uval c) = nat c" using assms by (intro unat_uval)
  have "is_covered (uval c) 1 [\<lparr>range_start = uval l, range_length = uval (h - l)\<rparr>] \<longleftrightarrow>
        nat l \<le> nat c \<and> nat c + 1 \<le> nat l + nat (h - l)"
    by (simp add: is_covered_def range_end_def ul ud uc)
  also have "\<dots> \<longleftrightarrow> l \<le> c \<and> c < h"
    using assms by linarith
  finally show ?thesis .
qed

lemma uint_uval: "0 \<le> v \<Longrightarrow> v < 2 ^ 64 \<Longrightarrow> uint (uval v) = v"
  by (simp add: uval_def uint_word_of_int)

lemma single_range_in_coverage:
  assumes "0 \<le> l" and "l < h" and "h < 2 ^ 64"
  shows "in_coverage [\<lparr>range_start = uval l, range_length = uval (h - l)\<rparr>] x \<longleftrightarrow>
         l \<le> x \<and> x < h"
proof -
  have ul: "uint (uval l) = l" using assms by (intro uint_uval) linarith+
  have ud: "uint (uval (h - l)) = h - l" using assms by (intro uint_uval) linarith+
  have "in_coverage [\<lparr>range_start = uval l, range_length = uval (h - l)\<rparr>] x \<longleftrightarrow>
        l \<le> x \<and> x < l + (h - l)"
    by (simp add: in_coverage_def range_end_def ul ud)
  then show ?thesis by simp
qed

lemma containsp_result:
  "snd (pred_containsp_aset_cst_result cov c) =
   pred_result_of (is_covered (uval (clamp0 c)) 1 cov)"
proof -
  obtain w where "addressify c = (w, clamp0 c)"
    using snd_addressify [of c] by (metis prod.collapse)
  then show ?thesis
    by (simp add: pred_containsp_aset_cst_result_def)
qed


text \<open>
  Claim C8, as stated: \<^verbatim>\<open>?contains\<close> on an address set and a constant holds if and only
  if the constant lies within a covered range, strictly below its high end.  It fails
  for a negative constant: \<^verbatim>\<open>addressify\<close> clamps \<open>- 3\<close> to 0, so \<open>0 10 aset -3 ?contains\<close>
  holds although \<open>- 3\<close> is in no range of the set.
\<close>

theorem aset_contains_negative:
  "snd (pred_containsp_aset_cst_result
          (get_coverage (snd (op_aset_cst_cst_operate (example_constant 0) (example_constant 10))))
          (example_constant (- 3))) = pred_yes \<and>
   \<not> in_coverage
        (get_coverage (snd (op_aset_cst_cst_operate (example_constant 0) (example_constant 10))))
        (- 3)"
  by (simp add: example_constant_def op_aset_cst_cst_operate_def addressify_def uval_def
      get_coverage_def pred_containsp_aset_cst_result_def is_covered_def in_coverage_def
      range_end_def pred_result_of_def dec_def)



text \<open>
  Claim C8, amended.  For operands below \<open>2 ^ 64\<close>, negative operands clamped to 0:
  the address set built by \<open>lo hi aset\<close> covers exactly the half-open range from the
  lower to the higher operand, and \<^verbatim>\<open>?contains\<close> on that set and a constant is \<open>yes\<close>
  when the clamped constant lies in that range and \<open>no\<close> otherwise.  So
  \<open>0 10 aset 9 ?contains\<close> holds and \<open>0 10 aset 10 ?contains\<close> does not.
\<close>

theorem aset_contains_clamped:
  assumes "clamp0 lo < 2 ^ 64" and "clamp0 hi < 2 ^ 64" and "clamp0 c < 2 ^ 64"
  shows "snd (pred_containsp_aset_cst_result
                (get_coverage (snd (op_aset_cst_cst_operate lo hi))) c) =
           pred_result_of
             (min (clamp0 lo) (clamp0 hi) \<le> clamp0 c \<and>
              clamp0 c < max (clamp0 lo) (clamp0 hi)) \<and>
         (in_coverage (get_coverage (snd (op_aset_cst_cst_operate lo hi))) x \<longleftrightarrow>
            min (clamp0 lo) (clamp0 hi) \<le> x \<and> x < max (clamp0 lo) (clamp0 hi))"
proof -
  define l where "l = min (clamp0 lo) (clamp0 hi)"
  define h where "h = max (clamp0 lo) (clamp0 hi)"
  have b: "0 \<le> l" "l \<le> h" "h < 2 ^ 64" "0 \<le> clamp0 c"
    using assms by (simp_all add: clamp0_def l_def h_def)
  then have d: "0 \<le> h - l" "h - l < 2 ^ 64" by linarith+
  have z: "uval (h - l) = 0 \<longleftrightarrow> h = l" using uval_eq_0 [OF d] by auto
  have cov: "get_coverage (snd (op_aset_cst_cst_operate lo hi)) =
             coverage_add (uval l) (uval (h - l)) []"
    by (simp add: aset_coverage l_def h_def)
  show ?thesis
  proof (cases "h = l")
    case True
    then have "get_coverage (snd (op_aset_cst_cst_operate lo hi)) = []"
      using z by (simp add: cov)
    then show ?thesis
      using True by (auto simp: containsp_result is_covered_def in_coverage_def
          simp flip: l_def h_def intro: arg_cong [of _ _ pred_result_of])
  next
    case False
    then have lt: "l < h" using b by simp
    have "get_coverage (snd (op_aset_cst_cst_operate lo hi)) =
               [\<lparr>range_start = uval l, range_length = uval (h - l)\<rparr>]"
      using False z by (simp add: cov)
    then show ?thesis
      using single_range_is_covered [OF b(1) lt b(3) b(4) assms(3)]
        single_range_in_coverage [OF b(1) lt b(3), of x]
      by (simp add: containsp_result flip: l_def h_def)
  qed
qed


theorem aset_contains_clamped_witness:
  "snd (pred_containsp_aset_cst_result
          (get_coverage (snd (op_aset_cst_cst_operate (example_constant 0) (example_constant 10))))
          (example_constant 9)) = pred_yes \<and>
   snd (pred_containsp_aset_cst_result
          (get_coverage (snd (op_aset_cst_cst_operate (example_constant 0) (example_constant 10))))
          (example_constant 10)) = pred_no \<and>
   in_coverage
     (get_coverage (snd (op_aset_cst_cst_operate (example_constant 0) (example_constant 10))))
     9 \<and>
   \<not> in_coverage
     (get_coverage (snd (op_aset_cst_cst_operate (example_constant 0) (example_constant 10))))
     10"
  using aset_contains_clamped [of "example_constant 0" "example_constant 10"
      "example_constant 9" 9]
    aset_contains_clamped [of "example_constant 0" "example_constant 10"
      "example_constant 10" 10]
  by (simp add: clamp0_def example_constant_def pred_result_of_def)




section \<open>Alternation (op_or)\<close>

text \<open>
  The results of the first \<open>n\<close> calls of \<^verbatim>\<open>next ()\<close> on an operator in state \<open>st\<close>,
  \<open>None\<close> for null.
\<close>

fun pulls :: "('st \<Rightarrow> 'r option \<times> 'st) \<Rightarrow> nat \<Rightarrow> 'st \<Rightarrow> 'r option list" where
  "pulls nxt 0 st = []"
| "pulls nxt (Suc n) st = (case nxt st of (r, st') \<Rightarrow> r # pulls nxt n st')"


text \<open>
  \<^verbatim>\<open>op_or\<close> holds its branches, each a sub-expression with its origin, and the iterator
  \<^verbatim>\<open>m_branch_it\<close>, \<open>None\<close> for \<^verbatim>\<open>m_branches.end ()\<close>.  The parameter \<open>bs\<close> gives what
  the branches compute, \<open>m_branches\<close> their states.  \<open>or_for\<close> is the \<^verbatim>\<open>for\<close> loop of
  \<^verbatim>\<open>op_or::next\<close> from branch \<open>i\<close> on, \<open>op_or_next\<close> the outer \<^verbatim>\<open>while (true)\<close>.
\<close>

record 's op_or = "'s inner_op" +
  m_branch_it :: "nat option"
  m_branches :: "'s list list"

definition or_reset_me :: "'s op_or \<Rightarrow> 's op_or" where
  "or_reset_me st = st\<lparr>m_branch_it := None, m_branches := map (\<lambda>b. []) (m_branches st)\<rparr>"

function or_for ::
  "('s \<Rightarrow> 's list) list \<Rightarrow> 's \<Rightarrow> nat \<Rightarrow> 's op_or \<Rightarrow> 's option \<times> 's op_or" where
  "or_for bs stk i st =
     (if i < length bs
      then (case op_next (prime (bs ! i) stk) of
              (Some stk2, rest) \<Rightarrow>
                (Some stk2, st\<lparr>m_branch_it := Some i,
                                m_branches := (m_branches st)[i := rest]\<rparr>)
            | (None, rest) \<Rightarrow>
                or_for bs stk (i + 1) (st\<lparr>m_branches := (m_branches st)[i := rest]\<rparr>))
      else (None, st\<lparr>m_branch_it := None\<rparr>))"
  by pat_completeness auto
termination
  by (relation "measure (\<lambda>(bs, stk, i, st). length bs - i)") auto

declare or_for.simps [simp del]

lemma or_for_upstream:
  "or_for bs stk i st = (r, st') \<Longrightarrow> m_upstream st' = m_upstream st"
proof (induction bs stk i st rule: or_for.induct)
  case (1 bs stk i st)
  from "1.prems" show ?case
    by (subst (asm) or_for.simps)
      (auto split: if_splits prod.splits option.splits dest: "1.IH")
qed

lemma op_next_shorter: "op_next xs = (Some x, rest) \<Longrightarrow> length rest < length xs"
  by (cases xs) (simp_all add: op_next_def)

function op_or_next :: "('s \<Rightarrow> 's list) list \<Rightarrow> 's op_or \<Rightarrow> 's option \<times> 's op_or" where
  "op_or_next bs st =
     (case m_branch_it st of
        None \<Rightarrow>
          (case op_next (m_upstream st) of
             (None, up) \<Rightarrow> (None, st\<lparr>m_upstream := up\<rparr>)
           | (Some stk, up) \<Rightarrow>
               (case or_for bs stk 0 (st\<lparr>m_upstream := up\<rparr>) of
                  (Some stk2, st') \<Rightarrow> (Some stk2, st')
                | (None, st') \<Rightarrow> op_or_next bs st'))
      | Some i \<Rightarrow>
          (case op_next (m_branches st ! i) of
             (Some stk2, rest) \<Rightarrow> (Some stk2, st\<lparr>m_branches := (m_branches st)[i := rest]\<rparr>)
           | (None, rest) \<Rightarrow>
               op_or_next bs (or_reset_me (st\<lparr>m_branches := (m_branches st)[i := rest]\<rparr>))))"
  by pat_completeness auto
termination
  by (relation "measure (\<lambda>(bs, st). 2 * length (m_upstream st) +
                   (if m_branch_it st = None then 0 else 1))")
    (auto dest!: or_for_upstream [OF sym] op_next_shorter [OF sym] simp: or_reset_me_def)

declare op_or_next.simps [simp del]


text \<open>The operator after \<^verbatim>\<open>reset ()\<close>, on an upstream that will return \<open>ups\<close>.\<close>

definition or_init :: "('s \<Rightarrow> 's list) list \<Rightarrow> 's list \<Rightarrow> 's op_or" where
  "or_init bs ups = \<lparr>m_upstream = ups, m_branch_it = None, m_branches = map (\<lambda>b. []) bs\<rparr>"


text \<open>
  The specification's words: for an input, the results of the first branch that yields
  at least one result, and nothing if no branch does; for a stream of inputs, these
  results input after input.
\<close>

definition first_success :: "'s list list \<Rightarrow> 's list" where
  "first_success rss = (case dropWhile (\<lambda>rs. rs = []) rss of [] \<Rightarrow> [] | rs # _ \<Rightarrow> rs)"

definition or_results :: "('s \<Rightarrow> 's list) list \<Rightarrow> 's list \<Rightarrow> 's list" where
  "or_results bs ups = concat (map (\<lambda>stk. first_success (map (\<lambda>b. b stk) bs)) ups)"



subsection \<open>What alternation emits\<close>

definition or_inv :: "('s \<Rightarrow> 's list) list \<Rightarrow> 's op_or \<Rightarrow> bool" where
  "or_inv bs st \<longleftrightarrow>
     length (m_branches st) = length bs \<and>
     (case m_branch_it st of None \<Rightarrow> True | Some i \<Rightarrow> i < length bs)"

definition or_rest :: "('s \<Rightarrow> 's list) list \<Rightarrow> 's op_or \<Rightarrow> 's list" where
  "or_rest bs st =
     (case m_branch_it st of None \<Rightarrow> [] | Some i \<Rightarrow> m_branches st ! i) @
     or_results bs (m_upstream st)"

lemma first_success_Cons:
  "first_success (rs # rss) = (if rs = [] then first_success rss else rs)"
  by (simp add: first_success_def)

lemma first_success_Nil [simp]: "first_success [] = []"
  by (simp add: first_success_def)

lemma or_for_spec:
  "length (m_branches st) = length bs \<Longrightarrow> or_for bs stk i st = (r, st') \<Longrightarrow>
   m_upstream st' = m_upstream st \<and> or_inv bs st' \<and>
   (case first_success (map (\<lambda>b. b stk) (drop i bs)) of
      [] \<Rightarrow> r = None \<and> m_branch_it st' = None
    | x # xs \<Rightarrow> r = Some x \<and> (\<exists>j. m_branch_it st' = Some j \<and> m_branches st' ! j = xs))"
proof (induction bs stk i st rule: or_for.induct)
  case (1 bs stk i st)
  note len = "1.prems"(1) and run = "1.prems"(2)
  show ?case
  proof (cases "i < length bs")
    case False
    then have "or_for bs stk i st = (None, st\<lparr>m_branch_it := None\<rparr>)"
      by (subst or_for.simps) simp
    with run len False show ?thesis
      by (auto simp: or_inv_def)
  next
    case True
    then have d: "drop i bs = bs ! i # drop (Suc i) bs"
      by (simp add: Cons_nth_drop_Suc)
    show ?thesis
    proof (cases "(bs ! i) stk")
      case Nil
      then have n: "op_next (prime (bs ! i) stk) = (None, [])"
        by (simp add: op_next_def prime_def)
      let ?st1 = "st\<lparr>m_branches := (m_branches st)[i := []]\<rparr>"
      have "or_for bs stk i st = or_for bs stk (i + 1) ?st1"
        using True n by (subst or_for.simps) simp
      with run have r1: "or_for bs stk (i + 1) ?st1 = (r, st')" by simp
      have "length (m_branches ?st1) = length bs" using len by simp
      from "1.IH" [OF True n [symmetric] refl this r1]
      show ?thesis by (simp add: d Nil first_success_Cons)
    next
      case (Cons x xs)
      then have n: "op_next (prime (bs ! i) stk) = (Some x, xs)"
        by (simp add: op_next_def prime_def)
      have "or_for bs stk i st =
            (Some x, st\<lparr>m_branch_it := Some i, m_branches := (m_branches st)[i := xs]\<rparr>)"
        using True n by (subst or_for.simps) simp
      with run len True show ?thesis
        by (auto simp: d Cons first_success_Cons or_inv_def)
    qed
  qed
qed

lemma or_results_Cons:
  "or_results bs (stk # ups) = first_success (map (\<lambda>b. b stk) bs) @ or_results bs ups"
  by (simp add: or_results_def)

lemma or_results_Nil [simp]: "or_results bs [] = []"
  by (simp add: or_results_def)

lemma op_or_next_spec:
  "or_inv bs st \<Longrightarrow> op_or_next bs st = (r, st') \<Longrightarrow>
   or_inv bs st' \<and>
   (case or_rest bs st of
      [] \<Rightarrow> r = None \<and> or_rest bs st' = []
    | x # xs \<Rightarrow> r = Some x \<and> or_rest bs st' = xs)"
proof (induction bs st rule: op_or_next.induct)
  case (1 bs st)
  note inv = "1.prems"(1) and run = "1.prems"(2)
  show ?case
  proof (cases "m_branch_it st")
    case None
    show ?thesis
    proof (cases "m_upstream st")
      case Nil
      then have "op_or_next bs st = (None, st\<lparr>m_upstream := []\<rparr>)"
        using None by (subst op_or_next.simps) (simp add: op_next_def)
      with run inv None Nil show ?thesis
        by (auto simp: or_inv_def or_rest_def)
    next
      case (Cons stk up)
      then have n: "op_next (m_upstream st) = (Some stk, up)"
        by (simp add: op_next_def)
      obtain r1 st1 where f: "or_for bs stk 0 (st\<lparr>m_upstream := up\<rparr>) = (r1, st1)"
        by (cases "or_for bs stk 0 (st\<lparr>m_upstream := up\<rparr>)")
      have "length (m_branches (st\<lparr>m_upstream := up\<rparr>)) = length bs"
        using inv by (simp add: or_inv_def)
      from or_for_spec [OF this f]
      have u1: "m_upstream st1 = up" and i1: "or_inv bs st1"
        and c1: "(case first_success (map (\<lambda>b. b stk) bs) of
                    [] \<Rightarrow> r1 = None \<and> m_branch_it st1 = None
                  | x # xs \<Rightarrow> r1 = Some x \<and>
                      (\<exists>j. m_branch_it st1 = Some j \<and> m_branches st1 ! j = xs))"
        by simp_all
      show ?thesis
      proof (cases "first_success (map (\<lambda>b. b stk) bs)")
        case fs: Nil
        with c1 have r1: "r1 = None" "m_branch_it st1 = None" by simp_all
        have "op_or_next bs st = op_or_next bs st1"
          using None n f r1 by (subst op_or_next.simps) simp
        with run have "op_or_next bs st1 = (r, st')" by simp
        from "1.IH"(1) [OF None n [symmetric] refl f [symmetric, unfolded r1(1)] refl i1 this]
        have "or_inv bs st' \<and>
              (case or_rest bs st1 of
                 [] \<Rightarrow> r = None \<and> or_rest bs st' = []
               | x # xs \<Rightarrow> r = Some x \<and> or_rest bs st' = xs)" .
        moreover have "or_rest bs st1 = or_rest bs st"
          using None Cons r1 u1 fs by (simp add: or_rest_def or_results_Cons)
        ultimately show ?thesis by simp
      next
        case fs: (Cons x xs)
        with c1 obtain j where r1: "r1 = Some x" "m_branch_it st1 = Some j"
          "m_branches st1 ! j = xs" by auto
        have "op_or_next bs st = (Some x, st1)"
          using None n f r1 by (subst op_or_next.simps) simp
        with run have "r = Some x" "st' = st1" by simp_all
        moreover have "or_rest bs st = x # xs @ or_results bs up"
          using None Cons fs by (simp add: or_rest_def or_results_Cons)
        moreover have "or_rest bs st1 = xs @ or_results bs up"
          using r1 u1 by (simp add: or_rest_def)
        ultimately show ?thesis using i1 by simp
      qed
    qed
  next
    case (Some i)
    with inv have i: "i < length (m_branches st)" "length (m_branches st) = length bs"
      by (simp_all add: or_inv_def)
    show ?thesis
    proof (cases "m_branches st ! i")
      case Nil
      then have n: "op_next (m_branches st ! i) = (None, [])"
        by (simp add: op_next_def)
      let ?st1 = "or_reset_me (st\<lparr>m_branches := (m_branches st)[i := []]\<rparr>)"
      have "op_or_next bs st = op_or_next bs ?st1"
        using Some n by (subst op_or_next.simps) simp
      with run have r1: "op_or_next bs ?st1 = (r, st')" by simp
      have i1: "or_inv bs ?st1"
        using i by (simp add: or_inv_def or_reset_me_def)
      from "1.IH"(2) [OF Some n [symmetric] refl i1 r1]
      have "or_inv bs st' \<and>
            (case or_rest bs ?st1 of
               [] \<Rightarrow> r = None \<and> or_rest bs st' = []
             | x # xs \<Rightarrow> r = Some x \<and> or_rest bs st' = xs)" .
      moreover have "or_rest bs ?st1 = or_rest bs st"
        using Some Nil by (simp add: or_rest_def or_reset_me_def)
      ultimately show ?thesis by simp
    next
      case (Cons x xs)
      then have n: "op_next (m_branches st ! i) = (Some x, xs)"
        by (simp add: op_next_def)
      have "op_or_next bs st = (Some x, st\<lparr>m_branches := (m_branches st)[i := xs]\<rparr>)"
        using Some n by (subst op_or_next.simps) simp
      with run Some Cons i inv show ?thesis
        by (auto simp: or_rest_def or_inv_def)
    qed
  qed
qed

lemma pulls_op_or:
  "or_inv bs st \<Longrightarrow>
   pulls (op_or_next bs) n st =
   map Some (take n (or_rest bs st)) @ replicate (n - length (or_rest bs st)) None"
proof (induction n arbitrary: st)
  case 0
  show ?case by simp
next
  case (Suc n)
  obtain r st' where run: "op_or_next bs st = (r, st')"
    by (cases "op_or_next bs st")
  from op_or_next_spec [OF Suc.prems run]
  have inv: "or_inv bs st'"
    and c: "(case or_rest bs st of
               [] \<Rightarrow> r = None \<and> or_rest bs st' = []
             | x # xs \<Rightarrow> r = Some x \<and> or_rest bs st' = xs)"
    by simp_all
  show ?case
  proof (cases "or_rest bs st")
    case Nil
    with c run Suc.IH [OF inv] show ?thesis by simp
  next
    case (Cons x xs)
    with c run Suc.IH [OF inv] show ?thesis by simp
  qed
qed


text \<open>The branches used in the worked example.\<close>

definition example_branches :: "(nat \<Rightarrow> nat list) list" where
  "example_branches =
     [\<lambda>n. [], \<lambda>n. if n = 1 then [] else [n + 10, n + 20], \<lambda>n. [n + 100]]"

text \<open>
  Claim C2.  For every upstream input, \<^verbatim>\<open>Or\<close> tries its branches in the order of their
  declaration and emits exactly the results of the first branch that yields at least
  one result for that input; nothing of a later branch is emitted for that input.  In
  full: the first \<open>n\<close> calls of \<^verbatim>\<open>next ()\<close> return the first \<open>n\<close> of these results, input
  after input, and null once they are exhausted.
\<close>

theorem or_first_successful_branch:
  "pulls (op_or_next bs) n (or_init bs ups) =
   map Some (take n (or_results bs ups)) @ replicate (n - length (or_results bs ups)) None"
proof -
  have "or_inv bs (or_init bs ups)"
    by (simp add: or_inv_def or_init_def)
  from pulls_op_or [OF this, of n] show ?thesis
    by (simp add: or_rest_def or_init_def)
qed

theorem or_first_successful_branch_witness:
  "pulls (op_or_next example_branches) 8 (or_init example_branches [1, 2, 3]) =
   [Some 101, Some 12, Some 22, Some 13, Some 23, None, None, None]"
proof -
  have "or_results example_branches [1, 2, 3] = [101, 12, 22, 13, 23]"
    by (simp add: or_results_def first_success_def example_branches_def)
  with or_first_successful_branch [of example_branches 8 "[1, 2, 3]"]
  show ?thesis by (simp add: numeral_3_eq_3)
qed



section \<open>Transitive closure (op_tr_closure)\<close>

text \<open>
  \<^verbatim>\<open>op_tr_closure\<close> holds the sub-expression \<^verbatim>\<open>m_op\<close> with its origin, the flags
  \<^verbatim>\<open>m_is_plus\<close> and \<^verbatim>\<open>m_op_drained\<close>, the worklist \<^verbatim>\<open>m_stks\<close> (a vector used from its
  back) and the set \<^verbatim>\<open>m_seen\<close>.  The set is kept as the list of the stacks inserted.
  Its order is declared outside the files at hand and is the parameter \<open>same\<close>:
  \<open>same a b\<close> holds when the set takes \<open>a\<close> and \<open>b\<close> for one element, which by the
  specification is structural equality of stacks.  A fresh operator has an empty
  worklist, an empty set and \<^verbatim>\<open>m_op_drained\<close> set.
\<close>

datatype op_tr_closure_kind = closure_plus | closure_star

record 's op_tr_closure = "'s sub_op" +
  m_is_plus :: bool
  m_op_drained :: bool
  m_stks :: "'s list"
  m_seen :: "'s list"

definition op_tr_closure_init :: "op_tr_closure_kind \<Rightarrow> 's list \<Rightarrow> 's op_tr_closure" where
  "op_tr_closure_init k ups =
     \<lparr>m_upstream = ups, m_op = [], m_is_plus = (k = closure_plus), m_op_drained = True,
      m_stks = [], m_seen = []\<rparr>"


text \<open>
  \<^verbatim>\<open>yield_and_cache\<close>: \<^verbatim>\<open>m_seen.insert (stk).second\<close> holds when no element of the set is
  the same as \<open>stk\<close>.
\<close>

definition yield_and_cache ::
  "('s \<Rightarrow> 's \<Rightarrow> bool) \<Rightarrow> 's \<Rightarrow> 's op_tr_closure \<Rightarrow> 's option \<times> 's op_tr_closure" where
  "yield_and_cache same stk st =
     (if \<not> list_ex (\<lambda>e. same e stk) (m_seen st)
      then (Some stk, st\<lparr>m_seen := m_seen st @ [stk], m_stks := m_stks st @ [stk]\<rparr>)
      else (None, st))"


definition next_from_upstream :: "'s op_tr_closure \<Rightarrow> 's option \<times> 's op_tr_closure" where
  "next_from_upstream st =
     (let st1 = st\<lparr>m_seen := []\<rparr>
      in case op_next (m_upstream st1) of (r, up) \<Rightarrow> (r, st1\<lparr>m_upstream := up\<rparr>))"

definition next_from_op :: "'s op_tr_closure \<Rightarrow> 's option \<times> 's op_tr_closure" where
  "next_from_op st =
     (if m_op_drained st then (None, st)
      else (case op_next (m_op st) of
              (Some ret, rest) \<Rightarrow> (Some ret, st\<lparr>m_op := rest\<rparr>)
            | (None, rest) \<Rightarrow> (None, st\<lparr>m_op := rest, m_op_drained := True\<rparr>)))"

definition send_to_op_stack ::
  "('s \<Rightarrow> 's list) \<Rightarrow> 's option \<Rightarrow> 's op_tr_closure \<Rightarrow> bool \<times> 's op_tr_closure" where
  "send_to_op_stack inner stk st =
     (case stk of
        None \<Rightarrow> (False, st)
      | Some s \<Rightarrow> (True, st\<lparr>m_op := prime inner s, m_op_drained := False\<rparr>))"

definition send_to_op ::
  "('s \<Rightarrow> 's list) \<Rightarrow> 's op_tr_closure \<Rightarrow> bool \<times> 's op_tr_closure" where
  "send_to_op inner st =
     (if m_stks st = []
      then (if m_is_plus st
            then (case next_from_upstream st of (stk, st') \<Rightarrow> send_to_op_stack inner stk st')
            else (False, st))
      else (case send_to_op_stack inner (Some (last (m_stks st))) st of
              (sent, st') \<Rightarrow> (True, st'\<lparr>m_stks := butlast (m_stks st')\<rparr>)))"


text \<open>
  \<^verbatim>\<open>op_tr_closure::next\<close>: \<open>tr_while\<close> is the inner \<^verbatim>\<open>while\<close> loop, which returns from
  \<^verbatim>\<open>next\<close> on the first result of the sub-expression that is new, \<open>tr_do_while\<close> the
  \<^verbatim>\<open>do \<dots> while (send_to_op ())\<close> around it.
\<close>

function tr_while ::
  "('s \<Rightarrow> 's \<Rightarrow> bool) \<Rightarrow> 's op_tr_closure \<Rightarrow> 's option \<times> 's op_tr_closure" where
  "tr_while same st =
     (case next_from_op st of
        (None, st') \<Rightarrow> (None, st')
      | (Some stk, st') \<Rightarrow>
          (case yield_and_cache same stk st' of
             (Some ret, st'') \<Rightarrow> (Some ret, st'')
           | (None, st'') \<Rightarrow> tr_while same st''))"
  by pat_completeness auto
termination
  by (relation "measure (\<lambda>(same, st). length (m_op st))")
    (auto simp: next_from_op_def yield_and_cache_def op_next_def
      split: if_splits list.splits)

declare tr_while.simps [simp del]

lemma tr_while_None:
  "tr_while same st = (None, st') \<Longrightarrow>
   m_stks st' = m_stks st \<and> m_upstream st' = m_upstream st \<and> m_seen st' = m_seen st"
proof (induction same st rule: tr_while.induct)
  case (1 same st)
  from "1.prems" show ?case
    by (subst (asm) tr_while.simps)
      (auto simp: next_from_op_def yield_and_cache_def
        split: prod.splits option.splits if_splits dest!: "1.IH" [rotated -1])
qed



lemma send_to_op_True:
  "send_to_op inner st = (True, st') \<Longrightarrow>
   (m_stks st \<noteq> [] \<and> m_stks st' = butlast (m_stks st) \<and> m_upstream st' = m_upstream st) \<or>
   (m_stks st = [] \<and> m_stks st' = [] \<and> length (m_upstream st') < length (m_upstream st))"
  by (auto simp: send_to_op_def send_to_op_stack_def next_from_upstream_def op_next_def Let_def
      split: if_splits prod.splits option.splits list.splits)

function tr_do_while ::
  "('s \<Rightarrow> 's list) \<Rightarrow> ('s \<Rightarrow> 's \<Rightarrow> bool) \<Rightarrow> 's op_tr_closure \<Rightarrow> 's option \<times> 's op_tr_closure"
where
  "tr_do_while inner same st =
     (case tr_while same st of
        (Some ret, st') \<Rightarrow> (Some ret, st')
      | (None, st') \<Rightarrow>
          (case send_to_op inner st' of
             (True, st'') \<Rightarrow> tr_do_while inner same st''
           | (False, st'') \<Rightarrow> (None, st'')))"
  by pat_completeness auto
termination
  by (relation "measures [\<lambda>(inner, same, st). length (m_upstream st),
                          \<lambda>(inner, same, st). length (m_stks st)]")
    (auto dest!: tr_while_None [OF sym] send_to_op_True [OF sym] intro: diff_less)

declare tr_do_while.simps [simp del]


definition op_tr_closure_next ::
  "('s \<Rightarrow> 's list) \<Rightarrow> ('s \<Rightarrow> 's \<Rightarrow> bool) \<Rightarrow> 's op_tr_closure \<Rightarrow> 's option \<times> 's op_tr_closure"
where
  "op_tr_closure_next inner same st =
     (case tr_do_while inner same st of
        (Some ret, st') \<Rightarrow> (Some ret, st')
      | (None, st') \<Rightarrow>
          if \<not> m_is_plus st'
          then (case next_from_upstream st' of
                  (Some stk, st'') \<Rightarrow> yield_and_cache same stk st''
                | (None, st'') \<Rightarrow> (None, st''))
          else (None, st'))"

text \<open>
  The stacks yielded by the first \<open>n\<close> calls of \<^verbatim>\<open>next ()\<close>, each with the number of
  stacks the upstream had yet to return when it was yielded: two stacks with the same
  number were yielded while the same upstream input was being processed, and on an
  upstream that returns \<open>ups\<close> the number \<open>t\<close> stands for the input
  \<open>ups ! (length ups - Suc t)\<close>.
\<close>

fun yields ::
  "('s \<Rightarrow> 's list) \<Rightarrow> ('s \<Rightarrow> 's \<Rightarrow> bool) \<Rightarrow> nat \<Rightarrow> 's op_tr_closure \<Rightarrow> ('s \<times> nat) list" where
  "yields inner same 0 st = []"
| "yields inner same (Suc n) st =
     (case op_tr_closure_next inner same st of
        (None, st') \<Rightarrow> yields inner same n st'
      | (Some x, st') \<Rightarrow> (x, length (m_upstream st')) # yields inner same n st')"


text \<open>No stack of the list is the same as an earlier one with the same number.\<close>

fun no_repeats :: "('s \<Rightarrow> 's \<Rightarrow> bool) \<Rightarrow> ('s \<times> nat) list \<Rightarrow> bool" where
  "no_repeats same [] = True"
| "no_repeats same ((x, t) # tr) =
     ((\<forall>(y, u) \<in> set tr. u = t \<longrightarrow> \<not> same x y) \<and> no_repeats same tr)"


text \<open>\<open>reaches inner s x\<close>: the sub-expression produces \<open>x\<close> from \<open>s\<close> in one or more steps.\<close>

inductive reaches :: "('s \<Rightarrow> 's list) \<Rightarrow> 's \<Rightarrow> 's \<Rightarrow> bool" for inner :: "'s \<Rightarrow> 's list" and s :: 's
where
  direct: "x \<in> set (inner s) \<Longrightarrow> reaches inner s x"
| step: "reaches inner s y \<Longrightarrow> x \<in> set (inner y) \<Longrightarrow> reaches inner s x"


text \<open>An example of a sub-expression: the children of the nodes of a small graph.\<close>

definition example_child :: "nat \<Rightarrow> nat list" where
  "example_child n =
     (if n = 1 then [2, 3] else if n = 2 then [4, 3] else if n = 4 then [1] else [])"


subsection \<open>The seen-set\<close>

lemma yield_and_cache_cases:
  assumes "yield_and_cache same x st = (r, st')"
  obtains
    (fresh) "r = Some x" "\<forall>e \<in> set (m_seen st). \<not> same e x"
      "st' = st\<lparr>m_seen := m_seen st @ [x], m_stks := m_stks st @ [x]\<rparr>"
  | (seen) "r = None" "st' = st"
  using assms by (auto simp: yield_and_cache_def list_ex_iff split: if_splits)

lemma next_from_op_cases:
  assumes "next_from_op st = (r, st')"
  obtains
    (drained) "m_op_drained st" "r = None" "st' = st"
  | (exhausted) "\<not> m_op_drained st" "m_op st = []" "r = None"
      "st' = st\<lparr>m_op := [], m_op_drained := True\<rparr>"
  | (result) x rest where "\<not> m_op_drained st" "m_op st = x # rest" "r = Some x"
      "st' = st\<lparr>m_op := rest\<rparr>"
  using assms
  by (cases "m_op st") (auto simp: next_from_op_def op_next_def split: if_splits)

lemma send_to_op_cases:
  assumes "send_to_op inner st = (b, st')"
  obtains
    (work) "m_stks st \<noteq> []" "b"
      "st' = st\<lparr>m_op := inner (last (m_stks st)), m_op_drained := False,
                 m_stks := butlast (m_stks st)\<rparr>"
  | (star) "m_stks st = []" "\<not> m_is_plus st" "\<not> b" "st' = st"
  | (drained) "m_stks st = []" "m_is_plus st" "m_upstream st = []" "\<not> b"
      "st' = st\<lparr>m_seen := [], m_upstream := []\<rparr>"
  | (pull) s up where "m_stks st = []" "m_is_plus st" "m_upstream st = s # up" "b"
      "st' = st\<lparr>m_seen := [], m_upstream := up, m_op := inner s, m_op_drained := False\<rparr>"
  using assms
  by (cases "m_upstream st")
    (auto simp: send_to_op_def send_to_op_stack_def next_from_upstream_def op_next_def
      prime_def Let_def split: if_splits)

lemma next_from_upstream_cases:
  assumes "next_from_upstream st = (r, st')"
  obtains
    (drained) "m_upstream st = []" "r = None" "st' = st\<lparr>m_seen := [], m_upstream := []\<rparr>"
  | (pull) s up where "m_upstream st = s # up" "r = Some s"
      "st' = st\<lparr>m_seen := [], m_upstream := up\<rparr>"
  using assms
  by (cases "m_upstream st") (auto simp: next_from_upstream_def op_next_def Let_def)

text \<open>What one run of the inner loop does to the seen-set.\<close>

lemma tr_while_seen:
  "tr_while same st = (r, st') \<Longrightarrow>
   m_upstream st' = m_upstream st \<and> m_is_plus st' = m_is_plus st \<and>
   (case r of
      None \<Rightarrow> m_seen st' = m_seen st \<and> m_stks st' = m_stks st \<and> m_op_drained st'
    | Some x \<Rightarrow> set (m_seen st') = set (m_seen st) \<union> {x} \<and>
               (\<forall>e \<in> set (m_seen st). \<not> same e x))"
proof (induction same st arbitrary: r st' rule: tr_while.induct)
  case (1 same st)
  obtain r1 st1 where n: "next_from_op st = (r1, st1)"
    by (cases "next_from_op st")
  from n show ?case
  proof (cases rule: next_from_op_cases)
    case drained
    with n "1.prems" show ?thesis
      by (subst (asm) tr_while.simps) auto
  next
    case exhausted
    with n "1.prems" show ?thesis
      by (subst (asm) tr_while.simps) auto
  next
    case (result x rest)
    obtain r2 st2 where y: "yield_and_cache same x st1 = (r2, st2)"
      by (cases "yield_and_cache same x st1")
    from y show ?thesis
    proof (cases rule: yield_and_cache_cases)
      case fresh
      with n y result "1.prems" show ?thesis
        by (subst (asm) tr_while.simps) auto
    next
      case seen
      with n y result "1.prems" have "tr_while same st2 = (r, st')"
        by (subst (asm) tr_while.simps) auto
      from "1.IH" [OF n [symmetric, unfolded result(3)] refl y [symmetric, unfolded seen(1)]
          refl this]
      show ?thesis using seen result by (auto split: option.splits)
    qed
  qed
qed

definition tr_dead :: "'s op_tr_closure \<Rightarrow> bool" where
  "tr_dead st \<longleftrightarrow> m_upstream st = [] \<and> m_stks st = [] \<and> m_op_drained st"

definition seen_step ::
  "('s \<Rightarrow> 's \<Rightarrow> bool) \<Rightarrow> 's op_tr_closure \<Rightarrow> 's option \<Rightarrow> 's op_tr_closure \<Rightarrow> bool" where
  "seen_step same st r st' \<longleftrightarrow>
     length (m_upstream st') \<le> length (m_upstream st) \<and>
     (length (m_upstream st') = length (m_upstream st) \<longrightarrow>
        (case r of
           None \<Rightarrow> set (m_seen st') \<subseteq> set (m_seen st)
         | Some x \<Rightarrow> set (m_seen st') = set (m_seen st) \<union> {x} \<and>
                    (\<forall>e \<in> set (m_seen st). \<not> same e x))) \<and>
     (length (m_upstream st') < length (m_upstream st) \<longrightarrow> set (m_seen st') = set_option r)"


lemma seen_step_same_start:
  "m_upstream a = m_upstream b \<Longrightarrow> m_seen a = m_seen b \<Longrightarrow>
   seen_step same a r st' \<Longrightarrow> seen_step same b r st'"
  by (auto simp: seen_step_def split: option.splits)

lemma seen_step_after_pull:
  assumes "length (m_upstream a) < length (m_upstream b)" and "m_seen a = []"
    and "seen_step same a r st'"
  shows "seen_step same b r st'"
proof (cases r)
  case None
  with assms show ?thesis by (auto simp: seen_step_def)
next
  case (Some x)
  with assms show ?thesis by (auto simp: seen_step_def)
qed

lemma tr_do_while_seen:
  "tr_do_while inner same st = (r, st') \<Longrightarrow>
   seen_step same st r st' \<and> m_is_plus st' = m_is_plus st \<and>
   (r = None \<longrightarrow> m_op_drained st' \<and> m_stks st' = [] \<and>
      (m_is_plus st \<longrightarrow> m_upstream st' = []))"
proof (induction inner same st arbitrary: r st' rule: tr_do_while.induct)
  case (1 inner same st)
  obtain r1 st1 where w: "tr_while same st = (r1, st1)"
    by (cases "tr_while same st")
  note ws = tr_while_seen [OF w]
  show ?case
  proof (cases r1)
    case (Some x)
    with w "1.prems" have "r = Some x" "st' = st1"
      by (subst (asm) tr_do_while.simps; simp)+
    with ws Some show ?thesis
      by (simp add: seen_step_def)
  next
    case None
    with ws have w1: "m_upstream st1 = m_upstream st" "m_seen st1 = m_seen st"
      "m_is_plus st1 = m_is_plus st" "m_stks st1 = m_stks st" "m_op_drained st1"
      by simp_all
    obtain b st2 where s: "send_to_op inner st1 = (b, st2)"
      by (cases "send_to_op inner st1")
    from s show ?thesis
    proof (cases rule: send_to_op_cases)
      case work
      with w None s "1.prems" have "tr_do_while inner same st2 = (r, st')"
        by (subst (asm) tr_do_while.simps) simp
      from "1.IH" [OF w [symmetric] None s [symmetric] _ this] work
      have "seen_step same st2 r st' \<and> m_is_plus st' = m_is_plus st2 \<and>
            (r = None \<longrightarrow> m_op_drained st' \<and> m_stks st' = [] \<and>
              (m_is_plus st2 \<longrightarrow> m_upstream st' = []))"
        by simp
      then have "seen_step same st2 r st'" "m_is_plus st' = m_is_plus st2"
        "r = None \<longrightarrow> m_op_drained st' \<and> m_stks st' = [] \<and>
              (m_is_plus st2 \<longrightarrow> m_upstream st' = [])"
        by simp_all
      moreover have "m_upstream st2 = m_upstream st" "m_seen st2 = m_seen st"
        "m_is_plus st2 = m_is_plus st"
        using w1 work by simp_all
      ultimately show ?thesis
        using seen_step_same_start [of st2 st same r st'] by simp
    next
      case star
      with w None s "1.prems" have "r = None" "st' = st1"
        by (subst (asm) tr_do_while.simps; simp)+
      with w1 star show ?thesis
        by (simp add: seen_step_def)
    next
      case drained
      with w None s "1.prems" have "r = None" "st' = st2"
        by (subst (asm) tr_do_while.simps; simp)+
      with w1 drained show ?thesis
        by (simp add: seen_step_def)
    next
      case (pull s0 up)
      with w None s "1.prems" have "tr_do_while inner same st2 = (r, st')"
        by (subst (asm) tr_do_while.simps) simp
      from "1.IH" [OF w [symmetric] None s [symmetric] _ this] pull
      have "seen_step same st2 r st' \<and> m_is_plus st' = m_is_plus st2 \<and>
            (r = None \<longrightarrow> m_op_drained st' \<and> m_stks st' = [] \<and>
              (m_is_plus st2 \<longrightarrow> m_upstream st' = []))"
        by simp
      then have "seen_step same st2 r st'" "m_is_plus st' = m_is_plus st2"
        "r = None \<longrightarrow> m_op_drained st' \<and> m_stks st' = [] \<and>
              (m_is_plus st2 \<longrightarrow> m_upstream st' = [])"
        by simp_all
      moreover have "length (m_upstream st2) < length (m_upstream st)" "m_seen st2 = []"
        "m_is_plus st2 = m_is_plus st"
        using w1 pull by (simp_all, metis length_Cons lessI)
      ultimately show ?thesis
        using seen_step_after_pull [of st2 st same r st'] by simp
    qed
  qed
qed

lemma op_tr_closure_next_seen:
  assumes "op_tr_closure_next inner same st = (r, st')"
  shows "seen_step same st r st' \<and> m_is_plus st' = m_is_plus st \<and> (r = None \<longrightarrow> tr_dead st')"
proof -
  obtain r1 st1 where d: "tr_do_while inner same st = (r1, st1)"
    by (cases "tr_do_while inner same st")
  note ds = tr_do_while_seen [OF d]
  show ?thesis
  proof (cases r1)
    case (Some x)
    with d assms have "r = Some x" "st' = st1"
      by (simp_all add: op_tr_closure_next_def)
    with ds Some show ?thesis by simp
  next
    case None
    show ?thesis
    proof (cases "m_is_plus st1")
      case True
      with d None assms have "r = None" "st' = st1"
        by (simp_all add: op_tr_closure_next_def)
      with ds None True show ?thesis by (simp add: tr_dead_def)
    next
      case False
      obtain r2 st2 where u: "next_from_upstream st1 = (r2, st2)"
        by (cases "next_from_upstream st1")
      from u show ?thesis
      proof (cases rule: next_from_upstream_cases)
        case drained
        with d None False u assms have "r = None" "st' = st2"
          by (simp_all add: op_tr_closure_next_def)
        with ds None drained show ?thesis
          by (simp add: tr_dead_def seen_step_def)
      next
        case (pull s0 up)
        with d None False u assms have y: "yield_and_cache same s0 st2 = (r, st')"
          by (simp add: op_tr_closure_next_def)
        with pull have "r = Some s0"
          "st' = st2\<lparr>m_seen := m_seen st2 @ [s0], m_stks := m_stks st2 @ [s0]\<rparr>"
          by (simp_all add: yield_and_cache_def)
        with ds None pull show ?thesis
          by (simp add: seen_step_def)
      qed
    qed
  qed
qed


subsection \<open>What the closure yields\<close>

definition candidate :: "('s \<Rightarrow> 's list) \<Rightarrow> bool \<Rightarrow> 's \<Rightarrow> 's \<Rightarrow> bool" where
  "candidate inner is_plus s x \<longleftrightarrow> reaches inner s x \<or> (\<not> is_plus \<and> x = s)"

definition tr_inv_pre :: "('s \<Rightarrow> 's list) \<Rightarrow> 's list \<Rightarrow> 's op_tr_closure \<Rightarrow> bool" where
  "tr_inv_pre inner pre st \<longleftrightarrow>
     (m_op_drained st \<longrightarrow> m_op st = []) \<and>
     (if pre = [] then m_stks st = [] \<and> m_op st = []
      else \<forall>x \<in> set (m_stks st) \<union> set (m_op st).
             candidate inner (m_is_plus st) (last pre) x)"

definition tr_inv :: "('s \<Rightarrow> 's list) \<Rightarrow> 's list \<Rightarrow> 's op_tr_closure \<Rightarrow> bool" where
  "tr_inv inner ups st \<longleftrightarrow> (\<exists>pre. ups = pre @ m_upstream st \<and> tr_inv_pre inner pre st)"

definition yield_ok ::
  "('s \<Rightarrow> 's list) \<Rightarrow> 's list \<Rightarrow> 's op_tr_closure \<Rightarrow> 's option \<Rightarrow> bool" where
  "yield_ok inner ups st' r \<longleftrightarrow>
     (\<forall>x. r = Some x \<longrightarrow>
        (\<exists>pre. pre \<noteq> [] \<and> ups = pre @ m_upstream st' \<and>
               candidate inner (m_is_plus st') (last pre) x))"


lemma candidate_inner:
  "candidate inner p s x \<Longrightarrow> y \<in> set (inner x) \<Longrightarrow> candidate inner p s y"
  by (auto simp: candidate_def intro: reaches.intros)

lemma tr_while_inv:
  "tr_inv_pre inner pre st \<Longrightarrow> tr_while same st = (r, st') \<Longrightarrow>
   tr_inv_pre inner pre st' \<and>
   (\<forall>x. r = Some x \<longrightarrow> pre \<noteq> [] \<and> candidate inner (m_is_plus st') (last pre) x)"
proof (induction same st arbitrary: r st' rule: tr_while.induct)
  case (1 same st)
  note inv = "1.prems"(1) and run = "1.prems"(2)
  obtain r1 st1 where n: "next_from_op st = (r1, st1)"
    by (cases "next_from_op st")
  from n show ?case
  proof (cases rule: next_from_op_cases)
    case drained
    with n run have "r = None" "st' = st"
      by (subst (asm) tr_while.simps; simp)+
    with inv show ?thesis by simp
  next
    case exhausted
    with n run have "r = None" "st' = st\<lparr>m_op := [], m_op_drained := True\<rparr>"
      by (subst (asm) tr_while.simps; simp)+
    with inv exhausted show ?thesis by (simp add: tr_inv_pre_def)
  next
    case (result x rest)
    with inv have ne: "pre \<noteq> []" and cx: "candidate inner (m_is_plus st) (last pre) x"
      by (auto simp: tr_inv_pre_def split: if_splits)
    from inv result have inv1: "tr_inv_pre inner pre st1"
      by (auto simp: tr_inv_pre_def split: if_splits)
    obtain r2 st2 where y: "yield_and_cache same x st1 = (r2, st2)"
      by (cases "yield_and_cache same x st1")
    from y show ?thesis
    proof (cases rule: yield_and_cache_cases)
      case fresh
      with n y result run have "r = Some x" "st' = st2"
        by (subst (asm) tr_while.simps; simp)+
      with inv1 ne cx fresh result show ?thesis
        by (auto simp: tr_inv_pre_def)
    next
      case seen
      with n y result run have "tr_while same st2 = (r, st')"
        by (subst (asm) tr_while.simps) auto
      from "1.IH" [OF n [symmetric, unfolded result(3)] refl y [symmetric, unfolded seen(1)]
          refl _ this] inv1 seen
      show ?thesis by simp
    qed
  qed
qed

lemma send_to_op_inv:
  assumes inv: "tr_inv_pre inner pre st" and ups: "ups = pre @ m_upstream st"
    and run: "send_to_op inner st = (b, st')"
  shows "tr_inv inner ups st'"
  using run
proof (cases rule: send_to_op_cases)
  case work
  with inv have ne: "pre \<noteq> []"
    by (auto simp: tr_inv_pre_def split: if_splits)
  with inv work have "candidate inner (m_is_plus st) (last pre) (last (m_stks st))"
    by (auto simp: tr_inv_pre_def)
  then have "\<forall>y \<in> set (inner (last (m_stks st))). candidate inner (m_is_plus st) (last pre) y"
    by (auto intro: candidate_inner)
  with inv ne work have "tr_inv_pre inner pre st'"
    by (auto simp: tr_inv_pre_def dest: in_set_butlastD)
  with ups work show ?thesis
    by (auto simp: tr_inv_def)
next
  case star
  with inv ups show ?thesis by (auto simp: tr_inv_def)
next
  case drained
  with inv have "tr_inv_pre inner pre st'"
    by (auto simp: tr_inv_pre_def)
  with ups drained show ?thesis
    by (auto simp: tr_inv_def)
next
  case (pull s up)
  have "tr_inv_pre inner (pre @ [s]) st'"
    using pull by (auto simp: tr_inv_pre_def candidate_def intro: reaches.direct)
  moreover have "ups = (pre @ [s]) @ m_upstream st'"
    using ups pull by simp
  ultimately show ?thesis
    unfolding tr_inv_def by blast
qed

lemma tr_do_while_inv:
  "tr_inv inner ups st \<Longrightarrow> tr_do_while inner same st = (r, st') \<Longrightarrow>
   tr_inv inner ups st' \<and> yield_ok inner ups st' r"
proof (induction inner same st arbitrary: r st' rule: tr_do_while.induct)
  case (1 inner same st)
  note inv = "1.prems"(1) and run = "1.prems"(2)
  from inv obtain pre where ups: "ups = pre @ m_upstream st" and ip: "tr_inv_pre inner pre st"
    by (auto simp: tr_inv_def)
  obtain r1 st1 where w: "tr_while same st = (r1, st1)"
    by (cases "tr_while same st")
  from tr_while_seen [OF w] have u1: "m_upstream st1 = m_upstream st" by simp
  from tr_while_inv [OF ip w]
  have ip1: "tr_inv_pre inner pre st1"
    and y1: "\<forall>x. r1 = Some x \<longrightarrow> pre \<noteq> [] \<and> candidate inner (m_is_plus st1) (last pre) x"
    by simp_all
  show ?case
  proof (cases r1)
    case (Some x)
    with w run have "r = Some x" "st' = st1"
      by (subst (asm) tr_do_while.simps; simp)+
    with Some ip1 y1 ups u1 show ?thesis
      by (auto simp: tr_inv_def yield_ok_def)
  next
    case None
    obtain b st2 where s: "send_to_op inner st1 = (b, st2)"
      by (cases "send_to_op inner st1")
    have inv2: "tr_inv inner ups st2"
      using send_to_op_inv [OF ip1 _ s] ups u1 by simp
    show ?thesis
    proof (cases b)
      case True
      with w None s run have "tr_do_while inner same st2 = (r, st')"
        by (subst (asm) tr_do_while.simps) simp
      from "1.IH" [OF w [symmetric] None s [symmetric] eqTrueI [OF True] inv2 this]
      show ?thesis .
    next
      case False
      with w None s run have "r = None" "st' = st2"
        by (subst (asm) tr_do_while.simps; simp)+
      with inv2 show ?thesis by (simp add: yield_ok_def)
    qed
  qed
qed

lemma op_tr_closure_next_inv:
  assumes inv: "tr_inv inner ups st" and run: "op_tr_closure_next inner same st = (r, st')"
  shows "tr_inv inner ups st' \<and> yield_ok inner ups st' r"
proof -
  obtain r1 st1 where d: "tr_do_while inner same st = (r1, st1)"
    by (cases "tr_do_while inner same st")
  from tr_do_while_inv [OF inv d]
  have inv1: "tr_inv inner ups st1" and y1: "yield_ok inner ups st1 r1" by simp_all
  from tr_do_while_seen [OF d]
  have dn: "r1 = None \<longrightarrow> m_op_drained st1 \<and> m_stks st1 = []" by simp
  show ?thesis
  proof (cases r1)
    case (Some x)
    with d run have "r = Some x" "st' = st1"
      by (simp_all add: op_tr_closure_next_def)
    with Some inv1 y1 show ?thesis by simp
  next
    case None
    show ?thesis
    proof (cases "m_is_plus st1")
      case True
      with d None run have "r = None" "st' = st1"
        by (simp_all add: op_tr_closure_next_def)
      with inv1 show ?thesis by (simp add: yield_ok_def)
    next
      case False
      from inv1 obtain pre where ups: "ups = pre @ m_upstream st1"
        and ip: "tr_inv_pre inner pre st1"
        by (auto simp: tr_inv_def)
      from ip dn None have e: "m_op st1 = []" "m_stks st1 = []" "m_op_drained st1"
        by (simp_all add: tr_inv_pre_def)
      obtain r2 st2 where u: "next_from_upstream st1 = (r2, st2)"
        by (cases "next_from_upstream st1")
      from u show ?thesis
      proof (cases rule: next_from_upstream_cases)
        case drained
        with d None False u run have "r = None" "st' = st2"
          by (simp_all add: op_tr_closure_next_def)
        moreover have "tr_inv_pre inner pre st2"
          using ip drained by (auto simp: tr_inv_pre_def)
        ultimately show ?thesis
          using ups drained by (auto simp: tr_inv_def yield_ok_def)
      next
        case (pull s up)
        with d None False u run have y: "yield_and_cache same s st2 = (r, st')"
          by (simp add: op_tr_closure_next_def)
        with pull have r: "r = Some s"
          and st': "st' = st2\<lparr>m_seen := m_seen st2 @ [s], m_stks := m_stks st2 @ [s]\<rparr>"
          by (simp_all add: yield_and_cache_def)
        have "tr_inv_pre inner (pre @ [s]) st'"
          using st' pull e False by (simp add: tr_inv_pre_def candidate_def)
        moreover have "ups = (pre @ [s]) @ m_upstream st'"
          using ups st' pull by simp
        moreover have "candidate inner (m_is_plus st') (last (pre @ [s])) s"
          using st' pull False by (simp add: candidate_def)
        ultimately show ?thesis
          unfolding tr_inv_def yield_ok_def r by blast
      qed
    qed
  qed
qed

lemma tr_do_while_star:
  "\<not> m_is_plus st \<Longrightarrow> tr_do_while inner same st = (r, st') \<Longrightarrow>
   m_upstream st' = m_upstream st"
proof (induction inner same st arbitrary: r st' rule: tr_do_while.induct)
  case (1 inner same st)
  note star = "1.prems"(1) and run = "1.prems"(2)
  obtain r1 st1 where w: "tr_while same st = (r1, st1)"
    by (cases "tr_while same st")
  from tr_while_seen [OF w]
  have u1: "m_upstream st1 = m_upstream st" and p1: "m_is_plus st1 = m_is_plus st"
    by simp_all
  show ?case
  proof (cases r1)
    case (Some x)
    with w run have "st' = st1"
      by (subst (asm) tr_do_while.simps) simp
    with u1 show ?thesis by simp
  next
    case None
    obtain b st2 where s: "send_to_op inner st1 = (b, st2)"
      by (cases "send_to_op inner st1")
    from s show ?thesis
    proof (cases rule: send_to_op_cases)
      case work
      with w None s run have "tr_do_while inner same st2 = (r, st')"
        by (subst (asm) tr_do_while.simps) simp
      moreover have "\<not> m_is_plus st2" using work star p1 by simp
      ultimately have "m_upstream st' = m_upstream st2"
        using "1.IH" [OF w [symmetric] None s [symmetric] eqTrueI [OF work(2)]] by blast
      with work u1 show ?thesis by simp
    next
      case star
      with w None s run have "st' = st1"
        by (subst (asm) tr_do_while.simps) simp
      with u1 show ?thesis by simp
    next
      case drained
      with star p1 show ?thesis by simp
    next
      case (pull s0 up)
      with star p1 show ?thesis by simp
    qed
  qed
qed

lemma star_yields_pulled_input:
  assumes star: "\<not> m_is_plus st" and run: "op_tr_closure_next inner same st = (r, st')"
    and pulled: "m_upstream st' \<noteq> m_upstream st"
  shows "\<exists>s. m_upstream st = s # m_upstream st' \<and> r = Some s"
proof -
  obtain r1 st1 where d: "tr_do_while inner same st = (r1, st1)"
    by (cases "tr_do_while inner same st")
  from tr_do_while_star [OF star d] have u1: "m_upstream st1 = m_upstream st" .
  from tr_do_while_seen [OF d] star have p1: "\<not> m_is_plus st1" by simp
  show ?thesis
  proof (cases r1)
    case (Some x)
    with d run have "st' = st1" by (simp add: op_tr_closure_next_def)
    with u1 pulled show ?thesis by simp
  next
    case None
    obtain r2 st2 where u: "next_from_upstream st1 = (r2, st2)"
      by (cases "next_from_upstream st1")
    from u show ?thesis
    proof (cases rule: next_from_upstream_cases)
      case drained
      with d None p1 u run have "st' = st2" by (simp add: op_tr_closure_next_def)
      with drained u1 pulled show ?thesis by simp
    next
      case (pull s up)
      with d None p1 u run have "yield_and_cache same s st2 = (r, st')"
        by (simp add: op_tr_closure_next_def)
      with pull have "r = Some s" "m_upstream st' = up"
        by (auto simp: yield_and_cache_def)
      with pull u1 show ?thesis by simp
    qed
  qed
qed

lemma tr_dead_next:
  assumes "tr_dead st"
  shows "\<exists>st'. op_tr_closure_next inner same st = (None, st') \<and> tr_dead st'"
proof -
  from assms have w: "tr_while same st = (None, st)"
    by (subst tr_while.simps) (simp add: tr_dead_def next_from_op_def)
  show ?thesis
  proof (cases "m_is_plus st")
    case True
    with assms have "send_to_op inner st = (False, st\<lparr>m_seen := []\<rparr>)"
      by (simp add: tr_dead_def send_to_op_def next_from_upstream_def op_next_def
          send_to_op_stack_def Let_def)
    with w have "tr_do_while inner same st = (None, st\<lparr>m_seen := []\<rparr>)"
      by (subst tr_do_while.simps) simp
    with True assms show ?thesis
      by (simp add: op_tr_closure_next_def tr_dead_def)
  next
    case False
    with assms have "send_to_op inner st = (False, st)"
      by (simp add: tr_dead_def send_to_op_def)
    with w have "tr_do_while inner same st = (None, st)"
      by (subst tr_do_while.simps) simp
    with False assms show ?thesis
      by (simp add: op_tr_closure_next_def tr_dead_def next_from_upstream_def op_next_def
          Let_def)
  qed
qed

lemma yields_dead: "tr_dead st \<Longrightarrow> yields inner same n st = []"
proof (induction n arbitrary: st)
  case 0
  show ?case by simp
next
  case (Suc n)
  from tr_dead_next [OF Suc.prems, of inner same] obtain st'
    where "op_tr_closure_next inner same st = (None, st')" "tr_dead st'" by blast
  with Suc.IH show ?case by simp
qed

lemma yields_fresh:
  "(x, t) \<in> set (yields inner same n st) \<Longrightarrow>
   t \<le> length (m_upstream st) \<and>
   (t = length (m_upstream st) \<longrightarrow> (\<forall>e \<in> set (m_seen st). \<not> same e x))"
proof (induction n arbitrary: st)
  case 0
  then show ?case by simp
next
  case (Suc n)
  obtain r st' where run: "op_tr_closure_next inner same st = (r, st')"
    by (cases "op_tr_closure_next inner same st")
  from op_tr_closure_next_seen [OF run]
  have ss: "seen_step same st r st'" and dead: "r = None \<longrightarrow> tr_dead st'" by simp_all
  show ?case
  proof (cases r)
    case None
    with dead have "yields inner same n st' = []" by (simp add: yields_dead)
    with run None Suc.prems show ?thesis by simp
  next
    case (Some y)
    from ss Some have le: "length (m_upstream st') \<le> length (m_upstream st)"
      and eq: "length (m_upstream st') = length (m_upstream st) \<Longrightarrow>
               set (m_seen st) \<subseteq> set (m_seen st') \<and> (\<forall>e \<in> set (m_seen st). \<not> same e y)"
      by (auto simp: seen_step_def)
    from run Some Suc.prems
    consider "x = y" "t = length (m_upstream st')" | "(x, t) \<in> set (yields inner same n st')"
      by auto
    then show ?thesis
    proof cases
      case 1
      with le eq show ?thesis by auto
    next
      case 2
      from Suc.IH [OF 2]
      have a: "t \<le> length (m_upstream st')"
        and b: "t = length (m_upstream st') \<Longrightarrow> \<forall>e \<in> set (m_seen st'). \<not> same e x"
        by simp_all
      have "\<forall>e \<in> set (m_seen st). \<not> same e x" if "t = length (m_upstream st)"
      proof -
        from that a le have l: "length (m_upstream st') = length (m_upstream st)" by simp
        with that have "t = length (m_upstream st')" by simp
        from b [OF this] eq [OF l] show ?thesis by blast
      qed
      with a le show ?thesis by simp
    qed
  qed
qed

lemma yields_no_repeats: "no_repeats same (yields inner same n st)"
proof (induction n arbitrary: st)
  case 0
  show ?case by simp
next
  case (Suc n)
  obtain r st' where run: "op_tr_closure_next inner same st = (r, st')"
    by (cases "op_tr_closure_next inner same st")
  show ?case
  proof (cases r)
    case None
    with run Suc.IH show ?thesis by simp
  next
    case (Some y)
    from op_tr_closure_next_seen [OF run] Some have "y \<in> set (m_seen st')"
      by (cases "length (m_upstream st') = length (m_upstream st)")
        (auto simp: seen_step_def)
    then have "\<forall>(x, t) \<in> set (yields inner same n st').
                 t = length (m_upstream st') \<longrightarrow> \<not> same y x"
      using yields_fresh [of _ _ inner same n st'] by blast
    with run Some Suc.IH show ?thesis by simp
  qed
qed

lemma yields_candidates:
  "tr_inv inner ups st \<Longrightarrow> (x, t) \<in> set (yields inner same n st) \<Longrightarrow>
   t < length ups \<and> candidate inner (m_is_plus st) (ups ! (length ups - Suc t)) x"
proof (induction n arbitrary: st)
  case 0
  then show ?case by simp
next
  case (Suc n)
  obtain r st' where run: "op_tr_closure_next inner same st = (r, st')"
    by (cases "op_tr_closure_next inner same st")
  from op_tr_closure_next_inv [OF Suc.prems(1) run]
  have inv: "tr_inv inner ups st'" and ok: "yield_ok inner ups st' r" by simp_all
  from op_tr_closure_next_seen [OF run] have p: "m_is_plus st' = m_is_plus st" by simp
  show ?case
  proof (cases r)
    case None
    with run Suc.prems(2) have "(x, t) \<in> set (yields inner same n st')" by simp
    from Suc.IH [OF inv this] p show ?thesis by simp
  next
    case (Some y)
    from run Some Suc.prems(2)
    consider "x = y" "t = length (m_upstream st')" | "(x, t) \<in> set (yields inner same n st')"
      by auto
    then show ?thesis
    proof cases
      case 1
      from ok Some obtain pre where pre: "pre \<noteq> []" "ups = pre @ m_upstream st'"
        "candidate inner (m_is_plus st') (last pre) y"
        by (auto simp: yield_ok_def)
      then have "length ups - Suc t = length pre - 1" "t < length ups"
        using 1 by (cases pre; simp)+
      with pre 1 p show ?thesis
        by (simp add: nth_append last_conv_nth)
    next
      case 2
      from Suc.IH [OF inv 2] p show ?thesis by simp
    qed
  qed
qed

lemma tr_inv_init: "tr_inv inner ups (op_tr_closure_init k ups)"
  by (simp add: tr_inv_def tr_inv_pre_def op_tr_closure_init_def)


lemma star_first:
  "fst (op_tr_closure_next inner same (op_tr_closure_init closure_star (s # ups))) = Some s"
  by (simp add: op_tr_closure_next_def tr_do_while.simps tr_while.simps
        op_tr_closure_init_def next_from_op_def send_to_op_def next_from_upstream_def
        op_next_def yield_and_cache_def Let_def)

lemma star_yields_while_upstream:
  assumes star: "\<not> m_is_plus st" and up: "m_upstream st \<noteq> []"
  shows "fst (op_tr_closure_next inner same st) \<noteq> None"
proof -
  obtain r1 st1 where d: "tr_do_while inner same st = (r1, st1)"
    by (cases "tr_do_while inner same st")
  from tr_do_while_star [OF star d] have u1: "m_upstream st1 = m_upstream st" .
  from tr_do_while_seen [OF d] star have p1: "\<not> m_is_plus st1" by simp
  show ?thesis
  proof (cases r1)
    case (Some x)
    with d show ?thesis by (simp add: op_tr_closure_next_def)
  next
    case None
    from up u1 have "m_upstream st1 \<noteq> []" by simp
    then obtain s rest where "m_upstream st1 = s # rest"
      by (auto simp: neq_Nil_conv)
    with d None p1 show ?thesis
      by (simp add: op_tr_closure_next_def next_from_upstream_def op_next_def
          yield_and_cache_def Let_def)
  qed
qed


text \<open>
  The operator as constructed.  (1) When \<^verbatim>\<open>TrClosure (inner, star)\<close> pulls a stack \<open>s\<close>
  from upstream, the same call of \<^verbatim>\<open>next\<close> yields \<open>s\<close> itself; the first call yields the
  first input (\<open>star_first\<close>), and no call returns null while the upstream has a stack
  to return (\<open>star_yields_while_upstream\<close>).  (2) Every stack yielded while the input
  \<open>s\<close> is processed is produced from \<open>s\<close> by \<open>inner\<close> in one or more steps, or is \<open>s\<close>
  itself under \<open>star\<close>.  (3) Of the stacks yielded while one upstream input is
  processed, none is the same (to the seen-set) as one yielded before it.  (4) After a
  call that pulled a new stack from upstream, the seen-set holds nothing but the stack
  that call yielded: it was cleared at the pull.
\<close>

lemma fresh_closure_yields:
  "(\<not> m_is_plus st \<and> op_tr_closure_next inner same st = (r, st') \<and>
      m_upstream st' \<noteq> m_upstream st \<longrightarrow>
        (\<exists>s. m_upstream st = s # m_upstream st' \<and> r = Some s)) \<and>
   (\<forall>(x, t) \<in> set (yields inner same n (op_tr_closure_init k ups)).
      t < length ups \<and>
      (reaches inner (ups ! (length ups - Suc t)) x \<or>
       (k = closure_star \<and> x = ups ! (length ups - Suc t)))) \<and>
   no_repeats same (yields inner same n (op_tr_closure_init k ups)) \<and>
   (op_tr_closure_next inner same st = (r, st') \<and>
      length (m_upstream st') < length (m_upstream st) \<longrightarrow>
        set (m_seen st') = set_option r)"
proof (intro conjI impI ballI)
  assume "\<not> m_is_plus st \<and> op_tr_closure_next inner same st = (r, st') \<and>
          m_upstream st' \<noteq> m_upstream st"
  then show "\<exists>s. m_upstream st = s # m_upstream st' \<and> r = Some s"
    using star_yields_pulled_input [of st inner same r st'] by blast
next
  fix p assume mem: "p \<in> set (yields inner same n (op_tr_closure_init k ups))"
  obtain x t where p: "p = (x, t)"
    by (cases p)
  with mem have "(x, t) \<in> set (yields inner same n (op_tr_closure_init k ups))"
    by simp
  from yields_candidates [OF tr_inv_init this]
  have "t < length ups \<and>
        candidate inner (k = closure_plus) (ups ! (length ups - Suc t)) x"
    by (simp add: op_tr_closure_init_def)
  then show "case p of (x, t) \<Rightarrow>
          t < length ups \<and>
          (reaches inner (ups ! (length ups - Suc t)) x \<or>
           (k = closure_star \<and> x = ups ! (length ups - Suc t)))"
    unfolding p by (cases k) (auto simp: candidate_def)
next
  show "no_repeats same (yields inner same n (op_tr_closure_init k ups))"
    by (rule yields_no_repeats)
next
  assume "op_tr_closure_next inner same st = (r, st') \<and>
          length (m_upstream st') < length (m_upstream st)"
  then show "set (m_seen st') = set_option r"
    using op_tr_closure_next_seen [of inner same st r st'] by (simp add: seen_step_def)
qed

lemma fresh_closure_yields_example:
  "fst (op_tr_closure_next example_child (=) (op_tr_closure_init closure_star [1])) = Some 1 \<and>
   yields example_child (=) 6 (op_tr_closure_init closure_plus [1, 3]) =
     [(2, 1), (3, 1), (4, 1), (1, 1)] \<and>
   reaches example_child 1 1 \<and>
   no_repeats (=) (yields example_child (=) 6 (op_tr_closure_init closure_plus [1, 3]))"
proof -
  let ?st0 = "op_tr_closure_init closure_star [1::nat]"
  let ?st1 = "\<lparr>m_upstream = [], m_op = [], m_is_plus = False, m_op_drained = True,
                m_stks = [1::nat], m_seen = [1]\<rparr>"
  have ev1: "op_tr_closure_next example_child (=) ?st0 = (Some 1, ?st1)"
    by (simp add: op_tr_closure_next_def tr_do_while.simps tr_while.simps
        op_tr_closure_init_def next_from_op_def send_to_op_def next_from_upstream_def
        op_next_def yield_and_cache_def Let_def)
  have ev2: "yields example_child (=) 6 (op_tr_closure_init closure_plus [1, 3]) =
             [(2, 1), (3, 1), (4, 1), (1, 1)]"
    by code_simp
  note t = fresh_closure_yields [where st = ?st0 and inner = example_child
      and same = "(=)" and r = "Some 1" and st' = ?st1 and n = 6 and k = closure_plus
      and ups = "[1, 3]"]
  from t ev1 have a: "\<exists>s. m_upstream ?st0 = s # m_upstream ?st1 \<and> Some (1::nat) = Some s"
    by (simp add: op_tr_closure_init_def)
  from t have "\<forall>(x, t) \<in> set (yields example_child (=) 6
                   (op_tr_closure_init closure_plus [1, 3])).
                 t < length [1::nat, 3] \<and>
                 (reaches example_child ([1, 3] ! (length [1::nat, 3] - Suc t)) x \<or>
                  (closure_plus = closure_star \<and> x = [1, 3] ! (length [1::nat, 3] - Suc t)))"
    by (rule conjunct2 [THEN conjunct1])
  then have b: "reaches example_child 1 1"
    unfolding ev2 by simp
  from t have c: "no_repeats (=) (yields example_child (=) 6
                    (op_tr_closure_init closure_plus [1, 3]))"
    by (rule conjunct2 [THEN conjunct2, THEN conjunct1])
  from a b c ev1 ev2 show ?thesis by simp
qed


subsection \<open>Reset\<close>

text \<open>
  \<^verbatim>\<open>op_tr_closure::reset\<close>: \<^verbatim>\<open>reset_me\<close> clears the worklist and the set, and
  \<^verbatim>\<open>inner_op::reset\<close> resets the upstream, which will return \<open>ups\<close> from then on.  The
  sub-expression is not reset and \<^verbatim>\<open>m_op_drained\<close> is not set: both stay as they are.
\<close>

definition op_tr_closure_reset :: "'s list \<Rightarrow> 's op_tr_closure \<Rightarrow> 's op_tr_closure" where
  "op_tr_closure_reset ups st = st\<lparr>m_upstream := ups, m_stks := [], m_seen := []\<rparr>"


text \<open>
  Claim C1.  For every upstream input \<open>s\<close>, \<^verbatim>\<open>TrClosure (inner, plus)\<close> is said not to
  yield \<open>s\<close> unless \<open>inner\<close> transitively produces it.  With \<open>inner\<close> producing 2 and 3
  from 1 and nothing from 3: the operator is given the input 1 and asked for one
  result, which is 2, then reset and given the input 3, as \<^verbatim>\<open>pred_subx_any::result\<close> and
  the condition of \<^verbatim>\<open>op_ifelse::next\<close> do with their sub-expression.  The next call yields
  3, the result of the sub-expression still pending from the input 1, although nothing
  is produced from 3 and the operator as constructed yields nothing on the input 3.
\<close>

theorem reset_keeps_pending_results:
  "fst (op_tr_closure_next example_child (=) (op_tr_closure_init closure_plus [1])) = Some 2 \<and>
   fst (op_tr_closure_next example_child (=)
         (op_tr_closure_reset [3]
           (snd (op_tr_closure_next example_child (=) (op_tr_closure_init closure_plus [1]))))) =
     Some 3 \<and>
   example_child 3 = [] \<and>
   yields example_child (=) 3 (op_tr_closure_init closure_plus [3]) = []"
  by code_simp


section \<open>Merge over tines (op_tine, op_merge)\<close>

text \<open>
  The \<open>K\<close> tines of a merge share the upstream, the slot file \<^verbatim>\<open>m_file\<close> of \<open>K\<close> stacks
  (\<open>None\<close> for a null slot) and the flag \<^verbatim>\<open>m_done\<close>; \<^verbatim>\<open>op_merge\<close> holds the same flag, its
  branches \<^verbatim>\<open>m_ops\<close> and the iterator \<^verbatim>\<open>m_it\<close>.  The shared objects are kept once, in one
  state: the upstream as the stacks it will still return, the iterator as an index,
  and branch \<open>k\<close>, which reads tine \<open>k\<close>, as the results it will still return for the
  stack it was last given.  The parameter \<open>bs\<close> gives what the branches compute.
\<close>

record 's op_merge = "'s inner_op" +
  m_file :: "'s option list"
  m_done :: bool
  m_it :: nat
  m_ops :: "'s list list"

text \<open>
  \<^verbatim>\<open>op_tine::next\<close> of the tine with \<^verbatim>\<open>m_branch_id\<close>: when every slot is null the tine
  pulls upstream and fills every slot with a copy, or sets the flag; it returns its
  own slot, moved out, which is null when the tine has taken it already.
\<close>

definition op_tine_next :: "nat \<Rightarrow> 's op_merge \<Rightarrow> 's option \<times> 's op_merge" where
  "op_tine_next m_branch_id st =
     (if m_done st then (None, st)
      else if list_all (\<lambda>ptr. ptr = None) (m_file st)
      then (case op_next (m_upstream st) of
              (Some stk, up) \<Rightarrow>
                (let file = map (\<lambda>ptr. Some stk) (m_file st)
                 in (file ! m_branch_id,
                     st\<lparr>m_upstream := up, m_file := file[m_branch_id := None]\<rparr>))
            | (None, up) \<Rightarrow> (None, st\<lparr>m_upstream := up, m_done := True\<rparr>))
      else (m_file st ! m_branch_id, st\<lparr>m_file := (m_file st)[m_branch_id := None]\<rparr>))"

text \<open>
  \<^verbatim>\<open>next ()\<close> of branch \<open>k\<close>: the next result for the current stack, or else for the next
  stack its tine returns; null when the tine returns null.
\<close>

partial_function (option) branch_next ::
  "('s \<Rightarrow> 's list) list \<Rightarrow> nat \<Rightarrow> 's op_merge \<Rightarrow> ('s option \<times> 's op_merge) option" where
  "branch_next bs k st =
     (case op_next (m_ops st ! k) of
        (Some ret, rest) \<Rightarrow> Some (Some ret, st\<lparr>m_ops := (m_ops st)[k := rest]\<rparr>)
      | (None, rest) \<Rightarrow>
          (case op_tine_next k (st\<lparr>m_ops := (m_ops st)[k := rest]\<rparr>) of
             (None, st') \<Rightarrow> Some (None, st')
           | (Some stk, st') \<Rightarrow>
               branch_next bs k (st'\<lparr>m_ops := (m_ops st')[k := (bs ! k) stk]\<rparr>)))"

text \<open>
  The \<^verbatim>\<open>while (! *m_done)\<close> loop of \<^verbatim>\<open>op_merge::next\<close>: a result of the current branch
  is returned and the iterator stays; on null the iterator moves on, back to the first
  branch after the last.
\<close>

partial_function (option) merge_loop ::
  "('s \<Rightarrow> 's list) list \<Rightarrow> 's op_merge \<Rightarrow> ('s option \<times> 's op_merge) option" where
  "merge_loop bs st =
     (if \<not> m_done st
      then (case branch_next bs (m_it st) st of
              None \<Rightarrow> None
            | Some (Some ret, st') \<Rightarrow> Some (Some ret, st')
            | Some (None, st') \<Rightarrow>
                merge_loop bs
                  (st'\<lparr>m_it := (if m_it st' + 1 = length (m_ops st') then 0
                                  else m_it st' + 1)\<rparr>))
      else Some (None, st))"

declare branch_next.simps [code] merge_loop.simps [code]

definition op_merge_next ::
  "('s \<Rightarrow> 's list) list \<Rightarrow> 's op_merge \<Rightarrow> ('s option \<times> 's op_merge) option" where
  "op_merge_next bs st = (if m_done st then Some (None, st) else merge_loop bs st)"

text \<open>
  The operator after \<^verbatim>\<open>reset ()\<close>, on an upstream that will return \<open>ups\<close>.
\<close>

definition op_merge_init :: "('s \<Rightarrow> 's list) list \<Rightarrow> 's list \<Rightarrow> 's op_merge" where
  "op_merge_init bs ups =
     \<lparr>m_upstream = ups, m_file = map (\<lambda>b. None) bs, m_done = False, m_it = 0,
      m_ops = map (\<lambda>b. []) bs\<rparr>"

text \<open>
  The results of the first \<open>n\<close> calls of \<^verbatim>\<open>next ()\<close>, provided every call returns.
\<close>

fun pulls_partial ::
  "('st \<Rightarrow> ('r option \<times> 'st) option) \<Rightarrow> nat \<Rightarrow> 'st \<Rightarrow> 'r option list option" where
  "pulls_partial nxt 0 st = Some []"
| "pulls_partial nxt (Suc n) st =
     (case nxt st of
        None \<Rightarrow> None
      | Some (r, st') \<Rightarrow> map_option ((#) r) (pulls_partial nxt n st'))"

text \<open>
  The specification's words: one result from each branch in rotation, until all
  branches are drained.
\<close>

definition round_robin :: "'s list list \<Rightarrow> 's list" where
  "round_robin xss = concat (transpose xss)"

text \<open>
  What the operator emits, starting with branch \<open>e\<close>: for every upstream stack all
  results of one branch, then all results of the next branch in rotation, once round
  all branches.  The branch that was served last pulls the next stack, so the
  rotation for the next stack starts one branch earlier.
\<close>

fun merge_results :: "('s \<Rightarrow> 's list) list \<Rightarrow> nat \<Rightarrow> 's list \<Rightarrow> 's list" where
  "merge_results bs e [] = []"
| "merge_results bs e (s # ups) =
     concat (map (\<lambda>b. b s) (rotate e bs)) @
     merge_results bs ((e + length bs - 1) mod length bs) ups"

text \<open>
  The branches used in the worked examples.
\<close>

definition example_merge :: "(nat \<Rightarrow> nat list) list" where
  "example_merge = [\<lambda>s. [s + 1, s + 2], \<lambda>s. [s + 10]]"


subsection \<open>The states of a merge\<close>

text \<open>
  \<open>order K i\<close> is the order in which the branches after \<open>i\<close> are visited, ending with
  \<open>i\<close> itself.  In \<open>merge_cfg bs i ws p s ups\<close> the iterator is at branch \<open>i\<close>, which
  will still return \<open>p\<close>; the branches \<open>ws\<close> have not yet taken their copy of the stack
  \<open>s\<close>; every other branch is drained.  \<open>merge_rest\<close> is what is still to be emitted
  from there.
\<close>

definition order :: "nat \<Rightarrow> nat \<Rightarrow> nat list" where
  "order K i = [Suc i..<K] @ [0..<Suc i]"

definition next_it :: "nat \<Rightarrow> nat \<Rightarrow> nat" where
  "next_it K i = (if i + 1 = K then 0 else i + 1)"

lemma order_props:
  assumes "i < K"
  shows "length (order K i) = K" and "distinct (order K i)"
    and "set (order K i) = {0..<K}" and "order K i = butlast (order K i) @ [i]"
  using assms by (auto simp: order_def butlast_append)

lemma order_Cons:
  assumes "i < K"
  shows "order K i = next_it K i # tl (order K i)"
proof (cases "i + 1 = K")
  case True
  then show ?thesis
    using assms by (simp add: order_def next_it_def upt_conv_Cons)
next
  case False
  with assms have "Suc i < K" by simp
  then show ?thesis
    by (simp add: order_def next_it_def upt_conv_Cons)
qed

lemma next_it_less: "i < K \<Longrightarrow> next_it K i < K"
  by (simp add: next_it_def)

lemma order_next:
  assumes "i < K"
  shows "order K (next_it K i) = tl (order K i) @ [next_it K i]"
proof (cases "i + 1 = K")
  case True
  then have "next_it K i = 0" by (simp add: next_it_def)
  moreover have "order K i = [0..<K]" using True by (auto simp: order_def)
  moreover have "tl [0..<K] = [1..<K]" using assms by (simp add: upt_conv_Cons)
  ultimately show ?thesis using assms by (simp add: order_def)
next
  case False
  with assms have lt: "Suc i < K" by simp
  then have "next_it K i = Suc i" by (simp add: next_it_def)
  moreover have "tl (order K i) = [Suc (Suc i)..<K] @ [0..<Suc i]"
    using lt by (simp add: order_def upt_conv_Cons)
  ultimately show ?thesis by (simp add: order_def)
qed

lemma not_in_take_order:
  assumes "i < K" and "m < K"
  shows "i \<notin> set (take m (order K i))"
proof -
  from order_props [OF assms(1)]
  have d: "distinct (butlast (order K i) @ [i])" and l: "length (order K i) = K"
    by (metis, simp)
  have "take m (order K i) = take m (butlast (order K i))"
    using take_butlast [of m "order K i"] assms l by simp
  then show ?thesis
    using d by (auto dest: in_set_takeD)
qed

definition file_of :: "nat \<Rightarrow> nat set \<Rightarrow> 's \<Rightarrow> 's option list" where
  "file_of K S s = map (\<lambda>j. if j \<in> S then Some s else None) [0..<K]"

lemma length_file_of [simp]: "length (file_of K S s) = K"
  by (simp add: file_of_def)

lemma file_of_nth [simp]: "j < K \<Longrightarrow> file_of K S s ! j = (if j \<in> S then Some s else None)"
  by (simp add: file_of_def)

lemma file_of_update: "(file_of K S s)[j := None] = file_of K (S - {j}) s"
proof (rule nth_equalityI)
  show "length ((file_of K S s)[j := None]) = length (file_of K (S - {j}) s)"
    by simp
next
  fix i assume "i < length ((file_of K S s)[j := None])"
  then have "i < K" by simp
  then show "(file_of K S s)[j := None] ! i = file_of K (S - {j}) s ! i"
    by (cases "i = j") simp_all
qed

lemma file_of_all_None:
  "S \<subseteq> {0..<K} \<Longrightarrow> list_all (\<lambda>ptr. ptr = None) (file_of K S s) \<longleftrightarrow> S = {}"
  by (auto simp: file_of_def list_all_iff)

lemma file_of_fill: "map (\<lambda>ptr. Some s') (file_of K S s) = file_of K {0..<K} s'"
  by (rule nth_equalityI) simp_all

definition merge_cfg ::
  "('s \<Rightarrow> 's list) list \<Rightarrow> nat \<Rightarrow> nat list \<Rightarrow> 's list \<Rightarrow> 's \<Rightarrow> 's list \<Rightarrow> 's op_merge" where
  "merge_cfg bs i ws p s ups =
     \<lparr>m_upstream = ups, m_file = file_of (length bs) (set ws) s, m_done = False, m_it = i,
      m_ops = (map (\<lambda>b. []) bs)[i := p]\<rparr>"

definition merge_rest ::
  "('s \<Rightarrow> 's list) list \<Rightarrow> nat \<Rightarrow> nat list \<Rightarrow> 's list \<Rightarrow> 's \<Rightarrow> 's list \<Rightarrow> 's list" where
  "merge_rest bs i ws p s ups =
     p @ concat (map (\<lambda>j. (bs ! j) s) ws) @ merge_results bs (last (i # ws)) ups"

definition served :: "nat \<Rightarrow> nat \<Rightarrow> nat list \<Rightarrow> bool" where
  "served K i ws \<longleftrightarrow> i < K \<and> (\<exists>m < K. ws = take m (order K i))"

lemma served_props:
  assumes "served K i ws"
  shows "i < K" and "i \<notin> set ws" and "set ws \<subseteq> {0..<K}" and "distinct ws"
proof -
  from assms obtain m where i: "i < K" and m: "m < K" and ws: "ws = take m (order K i)"
    by (auto simp: served_def)
  show "i < K" by fact
  show "i \<notin> set ws" using not_in_take_order [OF i m] ws by simp
  show "set ws \<subseteq> {0..<K}"
    using order_props(3) [OF i] ws by (auto dest: in_set_takeD)
  show "distinct ws" using order_props(2) [OF i] ws by simp
qed

lemma served_Nil: "i < K \<Longrightarrow> served K i []"
  by (auto simp: served_def intro: exI [of _ 0])

lemma served_all_but: "i < K \<Longrightarrow> served K i (butlast (order K i))"
  unfolding served_def using order_props(1) [of i K]
  by (auto simp: butlast_conv_take intro!: exI [of _ "K - 1"])

lemma served_next:
  assumes "served K i ws" and "ws \<noteq> []"
  shows "\<exists>ws'. ws = next_it K i # ws' \<and> served K (next_it K i) ws'"
proof -
  from assms obtain m where i: "i < K" and m: "m < K" and ws: "ws = take m (order K i)"
    by (auto simp: served_def)
  from assms(2) ws obtain m' where m': "m = Suc m'" by (cases m) auto
  have "ws = next_it K i # take m' (tl (order K i))"
    using ws m' order_Cons [OF i] by (metis take_Suc_Cons)
  moreover have "take m' (tl (order K i)) = take m' (order K (next_it K i))"
    using order_next [OF i] order_props(1) [OF i] m m' by simp
  ultimately have "ws = next_it K i # take m' (order K (next_it K i))"
    by simp
  moreover have "served K (next_it K i) (take m' (order K (next_it K i)))"
    unfolding served_def using m m' next_it_less [OF i] by (auto intro!: exI [of _ m'])
  ultimately show ?thesis by blast
qed

lemma set_butlast_order:
  assumes "i < K"
  shows "set (butlast (order K i)) = {0..<K} - {i}"
proof -
  from order_props [OF assms]
  have d: "distinct (butlast (order K i) @ [i])"
    and s: "set (butlast (order K i) @ [i]) = {0..<K}"
    by metis+
  from d have "i \<notin> set (butlast (order K i))" by simp
  with s show ?thesis by auto
qed

lemma merge_cfg_simps [simp]:
  "m_upstream (merge_cfg bs i ws p s ups) = ups"
  "m_file (merge_cfg bs i ws p s ups) = file_of (length bs) (set ws) s"
  "m_done (merge_cfg bs i ws p s ups) = False"
  "m_it (merge_cfg bs i ws p s ups) = i"
  "length (m_ops (merge_cfg bs i ws p s ups)) = length bs"
  by (simp_all add: merge_cfg_def)

lemma merge_cfg_ops:
  "i < length bs \<Longrightarrow> m_ops (merge_cfg bs i ws p s ups) ! i = p"
  "(merge_cfg bs i ws p s ups)\<lparr>m_ops := (m_ops (merge_cfg bs i ws p s ups))[i := q]\<rparr> =
   merge_cfg bs i ws q s ups"
  by (simp_all add: merge_cfg_def)

lemma map_Nil_update: "(map (\<lambda>b. []) bs)[k := []] = map (\<lambda>b. []) bs"
  by (cases "k < length bs") (simp_all add: list_update_same_conv list_update_beyond)

lemma merge_cfg_advance:
  "(merge_cfg bs i ws [] s ups)\<lparr>m_it := j\<rparr> = merge_cfg bs j ws [] s ups"
  by (simp add: merge_cfg_def map_Nil_update)

lemma tine_waiting:
  assumes "served (length bs) i ws" and "ws \<noteq> []"
  shows "op_tine_next i (merge_cfg bs i ws p s ups) = (None, merge_cfg bs i ws p s ups)"
proof -
  note sp = served_props [OF assms(1)]
  have "\<not> list_all (\<lambda>ptr. ptr = None) (file_of (length bs) (set ws) s)"
    using file_of_all_None [OF sp(3), of s] assms(2) by simp
  moreover have "set ws - {i} = set ws" using sp(2) by simp
  ultimately show ?thesis
    using sp(1,2) by (simp add: op_tine_next_def file_of_update merge_cfg_def)
qed

lemma tine_take:
  assumes "i < length bs" and "set (i # ws) \<subseteq> {0..<length bs}" and "i \<notin> set ws"
  shows "op_tine_next i (merge_cfg bs i (i # ws) p s ups) = (Some s, merge_cfg bs i ws p s ups)"
proof -
  have "\<not> list_all (\<lambda>ptr. ptr = None) (file_of (length bs) (set (i # ws)) s)"
    using file_of_all_None [OF assms(2), of s] by simp
  moreover have "set (i # ws) - {i} = set ws" using assms(3) by simp
  ultimately show ?thesis
    using assms(1) by (simp add: op_tine_next_def file_of_update merge_cfg_def)
qed

lemma tine_pull:
  assumes "i < length bs"
  shows "op_tine_next i (merge_cfg bs i [] p s (s' # ups)) =
         (Some s', merge_cfg bs i (butlast (order (length bs) i)) p s' ups)"
proof -
  have "list_all (\<lambda>ptr. ptr = None) (file_of (length bs) (set []) s)"
    using file_of_all_None [of "{}" "length bs" s] by simp
  moreover have "(map (\<lambda>ptr. Some s') (file_of (length bs) (set []) s))[i := None] =
                 file_of (length bs) (set (butlast (order (length bs) i))) s'"
    by (simp only: file_of_fill file_of_update set_butlast_order [OF assms])
  moreover have "map (\<lambda>ptr. Some s') (file_of (length bs) (set []) s) ! i = Some s'"
    using assms by (simp add: file_of_fill)
  ultimately show ?thesis
    by (simp add: op_tine_next_def op_next_def merge_cfg_def Let_def)
qed

lemma tine_done:
  "op_tine_next i (merge_cfg bs i [] p s []) = (None, (merge_cfg bs i [] p s [])\<lparr>m_done := True\<rparr>)"
proof -
  have "list_all (\<lambda>ptr. ptr = None) (file_of (length bs) (set []) s)"
    using file_of_all_None [of "{}" "length bs" s] by simp
  then show ?thesis
    by (simp add: op_tine_next_def op_next_def merge_cfg_def)
qed

lemma map_nth_rotation:
  assumes "i < length bs"
  shows "map (nth bs) (i # butlast (order (length bs) i)) = rotate i bs"
proof -
  have "butlast (order (length bs) i) = [Suc i..<length bs] @ [0..<i]"
    by (simp add: order_def butlast_append)
  then have "i # butlast (order (length bs) i) = [i..<length bs] @ [0..<i]"
    using assms by (simp add: upt_conv_Cons)
  moreover have "map (nth bs) [i..<length bs] = drop i bs"
    by (rule nth_equalityI) simp_all
  moreover have "map (nth bs) [0..<i] = take i bs"
    using assms by (intro nth_equalityI) simp_all
  ultimately show ?thesis
    using assms by (simp add: rotate_drop_take)
qed

lemma last_rotation:
  assumes "i < K"
  shows "last (i # butlast (order K i)) = (i + K - 1) mod K"
proof (cases "i = 0")
  case True
  show ?thesis
  proof (cases "K = 1")
    case k: True
    with True show ?thesis by (simp add: order_def)
  next
    case False
    with assms True have k: "1 < K" by simp
    then have "butlast (order K i) = [1..<K]" "[1..<K] \<noteq> []"
      using True by (simp_all add: order_def)
    moreover have "last [1..<K] = K - 1"
      using k by (simp add: last_upt)
    ultimately show ?thesis using True k by simp
  qed
next
  case False
  then obtain j where j: "i = Suc j" by (cases i) auto
  have b: "butlast (order K i) = [Suc i..<K] @ [0..<i]"
    by (simp add: order_def butlast_append)
  have "last (i # butlast (order K i)) = j"
    unfolding b using j by simp
  moreover have "(i + K - 1) mod K = j"
    using j assms by simp
  ultimately show ?thesis by simp
qed

lemma merge_rest_pull:
  assumes "i < length bs"
  shows "merge_rest bs i [] [] s (s' # ups) =
         merge_rest bs i (butlast (order (length bs) i)) ((bs ! i) s') s' ups"
proof -
  have "concat (map (\<lambda>b. b s') (rotate i bs)) =
        (bs ! i) s' @ concat (map (\<lambda>j. (bs ! j) s') (butlast (order (length bs) i)))"
    using map_nth_rotation [OF assms, symmetric] by (simp add: comp_def)
  then show ?thesis
    using last_rotation [OF assms] by (simp add: merge_rest_def)
qed

lemma measure_less:
  fixes a a' w w' K :: nat
  assumes "a' < a" and "w' \<le> K"
  shows "a' * Suc K + w' < a * Suc K + w"
proof -
  from assms(1) have "Suc a' * Suc K \<le> a * Suc K"
    by (intro mult_le_mono1) simp
  with assms(2) show ?thesis by simp
qed

definition branch_post ::
  "('s \<Rightarrow> 's list) list \<Rightarrow> nat \<Rightarrow> 's list \<Rightarrow> 's list \<Rightarrow> nat list \<Rightarrow> 's option \<Rightarrow> 's op_merge \<Rightarrow> bool"
where
  "branch_post bs i R ups ws r st' \<longleftrightarrow>
     (case r of
        Some x \<Rightarrow>
          (\<exists>ws' p' s' ups'. st' = merge_cfg bs i ws' p' s' ups' \<and> served (length bs) i ws' \<and>
             R = x # merge_rest bs i ws' p' s' ups')
      | None \<Rightarrow>
          (m_done st' \<and> R = []) \<or>
          (\<exists>ws' s' ups'. ws' \<noteq> [] \<and> st' = merge_cfg bs i ws' [] s' ups' \<and>
             served (length bs) i ws' \<and> R = merge_rest bs i ws' [] s' ups' \<and>
             (length ups' < length ups \<or> (ups' = ups \<and> ws' = ws))))"

lemma branch_post_result:
  assumes "served (length bs) i ws"
  shows "branch_post bs i (x # merge_rest bs i ws p s ups) ups0 ws0 (Some x)
           (merge_cfg bs i ws p s ups)"
proof -
  have "\<exists>ws' p' s' ups'. merge_cfg bs i ws p s ups = merge_cfg bs i ws' p' s' ups' \<and>
          served (length bs) i ws' \<and>
          x # merge_rest bs i ws p s ups = x # merge_rest bs i ws' p' s' ups'"
    using assms by (intro exI [of _ ws] exI [of _ p] exI [of _ s] exI [of _ ups]) simp
  then show ?thesis
    by (simp only: branch_post_def option.case)
qed

lemma branch_post_done: "m_done st' \<Longrightarrow> branch_post bs i [] ups ws None st'"
  by (simp add: branch_post_def)

lemma branch_post_waiting:
  assumes "served (length bs) i ws" and "ws \<noteq> []"
  shows "branch_post bs i (merge_rest bs i ws [] s ups) ups ws None (merge_cfg bs i ws [] s ups)"
  unfolding branch_post_def option.case
proof (rule disjI2)
  show "\<exists>ws' s' ups'. ws' \<noteq> [] \<and> merge_cfg bs i ws [] s ups = merge_cfg bs i ws' [] s' ups' \<and>
          served (length bs) i ws' \<and>
          merge_rest bs i ws [] s ups = merge_rest bs i ws' [] s' ups' \<and>
          (length ups' < length ups \<or> (ups' = ups \<and> ws' = ws))"
    using assms by (intro exI [of _ ws] exI [of _ s] exI [of _ ups]) simp
qed

lemma branch_post_pull:
  assumes "branch_post bs i R ups ws r st'"
  shows "branch_post bs i R (s' # ups) ws0 r st'"
proof (cases r)
  case None
  from assms [unfolded branch_post_def None option.case]
  show ?thesis
  proof (rule disjE)
    assume "m_done st' \<and> R = []"
    then show ?thesis by (simp add: branch_post_def None)
  next
    assume "\<exists>ws' s' ups'. ws' \<noteq> [] \<and> st' = merge_cfg bs i ws' [] s' ups' \<and>
             served (length bs) i ws' \<and> R = merge_rest bs i ws' [] s' ups' \<and>
             (length ups' < length ups \<or> (ups' = ups \<and> ws' = ws))"
    then obtain ws' s'' ups' where a: "ws' \<noteq> []" "st' = merge_cfg bs i ws' [] s'' ups'"
        "served (length bs) i ws'" "R = merge_rest bs i ws' [] s'' ups'"
      and m: "length ups' < length ups \<or> (ups' = ups \<and> ws' = ws)"
      by (elim exE conjE)
    from m have "length ups' < length (s' # ups)" by auto
    with a have "\<exists>ws' t ups'a. ws' \<noteq> [] \<and> st' = merge_cfg bs i ws' [] t ups'a \<and>
          served (length bs) i ws' \<and> R = merge_rest bs i ws' [] t ups'a \<and>
          (length ups'a < length (s' # ups) \<or> (ups'a = s' # ups \<and> ws' = ws0))"
      by (intro exI [of _ ws'] exI [of _ s''] exI [of _ ups']) simp
    then show ?thesis
      unfolding branch_post_def None option.case by (rule disjI2)
  qed
next
  case (Some x)
  with assms show ?thesis by (simp add: branch_post_def)
qed

lemma branch_next_served:
  assumes "served (length bs) i ws"
  shows "\<exists>r st'. branch_next bs i (merge_cfg bs i ws p s ups) = Some (r, st') \<and>
           branch_post bs i (merge_rest bs i ws p s ups) ups ws r st'"
  using assms
proof (induction ups arbitrary: ws p s)
  case Nil
  note i = served_props(1) [OF Nil.prems]
  show ?case
  proof (cases p)
    case (Cons x xs)
    then have "branch_next bs i (merge_cfg bs i ws p s []) =
               Some (Some x, merge_cfg bs i ws xs s [])"
      using i by (subst branch_next.simps) (simp add: merge_cfg_ops op_next_def)
    moreover have "merge_rest bs i ws p s [] = x # merge_rest bs i ws xs s []"
      using Cons by (simp add: merge_rest_def)
    ultimately show ?thesis
      using branch_post_result [OF Nil.prems, of x xs s "[]" "[]" ws] by simp
  next
    case p: Nil
    show ?thesis
    proof (cases ws)
      case Nil
      have "branch_next bs i (merge_cfg bs i [] [] s []) =
            Some (None, (merge_cfg bs i [] [] s [])\<lparr>m_done := True\<rparr>)"
        using i by (subst branch_next.simps)
          (simp add: merge_cfg_ops op_next_def tine_done)
      moreover have "merge_rest bs i [] [] s [] = []"
        by (simp add: merge_rest_def)
      ultimately show ?thesis
        using p Nil branch_post_done [of "(merge_cfg bs i [] [] s [])\<lparr>m_done := True\<rparr>" bs i "[]" "[]"]
        by simp
    next
      case (Cons w ws')
      then have ne: "ws \<noteq> []" by simp
      have "branch_next bs i (merge_cfg bs i ws [] s []) =
            Some (None, merge_cfg bs i ws [] s [])"
        using i by (subst branch_next.simps)
          (simp add: merge_cfg_ops op_next_def tine_waiting [OF Nil.prems ne])
      with p show ?thesis
        using branch_post_waiting [OF Nil.prems ne, of s "[]"] by simp
    qed
  qed
next
  case (Cons s' ups)
  note i = served_props(1) [OF Cons.prems]
  show ?case
  proof (cases p)
    case (Cons x xs)
    then have "branch_next bs i (merge_cfg bs i ws p s (s' # ups)) =
               Some (Some x, merge_cfg bs i ws xs s (s' # ups))"
      using i by (subst branch_next.simps) (simp add: merge_cfg_ops op_next_def)
    moreover have "merge_rest bs i ws p s (s' # ups) = x # merge_rest bs i ws xs s (s' # ups)"
      using Cons by (simp add: merge_rest_def)
    ultimately show ?thesis
      using branch_post_result [OF Cons.prems, of x xs s "s' # ups" "s' # ups" ws] by simp
  next
    case p: Nil
    show ?thesis
    proof (cases ws)
      case Nil
      let ?ws = "butlast (order (length bs) i)"
      have sv: "served (length bs) i ?ws" using i by (rule served_all_but)
      have eq: "branch_next bs i (merge_cfg bs i [] [] s (s' # ups)) =
            branch_next bs i (merge_cfg bs i ?ws ((bs ! i) s') s' ups)"
        using i by (subst branch_next.simps)
          (simp add: merge_cfg_ops op_next_def tine_pull)
      from Cons.IH [OF sv, of "(bs ! i) s'" s'] obtain r st'
        where run: "branch_next bs i (merge_cfg bs i ?ws ((bs ! i) s') s' ups) = Some (r, st')"
          and post: "branch_post bs i (merge_rest bs i ?ws ((bs ! i) s') s' ups) ups ?ws r st'"
        by blast
      note rp = merge_rest_pull [OF i, of s s' ups]
      from branch_post_pull [OF post, of s' "[]"]
      have "branch_post bs i (merge_rest bs i [] [] s (s' # ups)) (s' # ups) [] r st'"
        by (simp only: rp)
      with run eq p Nil show ?thesis by simp
    next
      case (Cons w ws')
      then have ne: "ws \<noteq> []" by simp
      have "branch_next bs i (merge_cfg bs i ws [] s (s' # ups)) =
            Some (None, merge_cfg bs i ws [] s (s' # ups))"
        using i by (subst branch_next.simps)
          (simp add: merge_cfg_ops op_next_def tine_waiting [OF Cons.prems ne])
      with p show ?thesis
        using branch_post_waiting [OF Cons.prems ne, of s "s' # ups"] by simp
    qed
  qed
qed

definition merge_post :: "('s \<Rightarrow> 's list) list \<Rightarrow> 's list \<Rightarrow> 's option \<Rightarrow> 's op_merge \<Rightarrow> bool" where
  "merge_post bs R r st' \<longleftrightarrow>
     (case R of
        [] \<Rightarrow> r = None \<and> m_done st'
      | x # xs \<Rightarrow>
          r = Some x \<and>
          (\<exists>i ws p s ups. st' = merge_cfg bs i ws p s ups \<and> served (length bs) i ws \<and>
             merge_rest bs i ws p s ups = xs))"

lemma merge_loop_cong_branch:
  assumes "\<not> m_done A" and "\<not> m_done B" and "m_it A = m_it B"
    and "branch_next bs (m_it A) A = branch_next bs (m_it B) B"
  shows "merge_loop bs A = merge_loop bs B"
  using assms by (subst merge_loop.simps, subst (2) merge_loop.simps) simp

lemma served_length: "served K i ws \<Longrightarrow> length ws \<le> K"
  using order_props(1) [of i K] by (auto simp: served_def)

lemma merge_loop_take:
  assumes sv: "served (length bs) i ws"
  shows "merge_loop bs (merge_cfg bs i (i # ws) [] s ups) =
         merge_loop bs (merge_cfg bs i ws ((bs ! i) s) s ups)"
proof (rule merge_loop_cong_branch)
  note sp = served_props [OF sv]
  have sub: "set (i # ws) \<subseteq> {0..<length bs}" using sp(1,3) by simp
  show "branch_next bs (m_it (merge_cfg bs i (i # ws) [] s ups)) (merge_cfg bs i (i # ws) [] s ups) =
        branch_next bs (m_it (merge_cfg bs i ws ((bs ! i) s) s ups)) (merge_cfg bs i ws ((bs ! i) s) s ups)"
    using sp(1)
    by (subst branch_next.simps)
       (simp add: merge_cfg_ops op_next_def tine_take [OF sp(1) sub sp(2)])
qed simp_all

lemma merge_rest_take:
  "merge_rest bs i (j # ws) [] s ups = merge_rest bs j ws ((bs ! j) s) s ups"
  by (simp add: merge_rest_def)

lemma merge_loop_served:
  assumes "served (length bs) i ws"
  shows "\<exists>r st'. merge_loop bs (merge_cfg bs i ws p s ups) = Some (r, st') \<and>
           merge_post bs (merge_rest bs i ws p s ups) r st'"
  using assms
proof (induction "length ups * Suc (length bs) + length ws" arbitrary: i ws p s ups
         rule: less_induct)
  case less
  let ?K = "length bs"
  let ?cfg = "merge_cfg bs i ws p s ups"
  let ?R = "merge_rest bs i ws p s ups"
  from branch_next_served [OF less.prems, of p s ups] obtain r st'
    where run: "branch_next bs i ?cfg = Some (r, st')"
      and post: "branch_post bs i ?R ups ws r st'"
    by blast
  show ?case
  proof (cases r)
    case (Some x)
    from post [unfolded branch_post_def Some option.case]
    obtain ws' p' s' ups' where st': "st' = merge_cfg bs i ws' p' s' ups'"
      and sv': "served ?K i ws'" and R: "?R = x # merge_rest bs i ws' p' s' ups'"
      by (elim exE conjE)
    have "merge_loop bs ?cfg = Some (Some x, st')"
      using run Some by (subst merge_loop.simps) simp
    moreover have "merge_post bs ?R (Some x) st'"
      unfolding merge_post_def R list.case using st' sv' by blast
    ultimately show ?thesis by blast
  next
    case None
    let ?adv = "st'\<lparr>m_it := (if m_it st' + 1 = length (m_ops st') then 0 else m_it st' + 1)\<rparr>"
    have loop: "merge_loop bs ?cfg = merge_loop bs ?adv"
      using run None by (subst merge_loop.simps) simp
    from post [unfolded branch_post_def None option.case]
    show ?thesis
    proof (rule disjE)
      assume d: "m_done st' \<and> ?R = []"
      then have "merge_loop bs ?adv = Some (None, ?adv)"
        by (subst merge_loop.simps) simp
      moreover have "merge_post bs ?R None ?adv"
        using d by (simp add: merge_post_def)
      ultimately show ?thesis using loop by simp
    next
      assume "\<exists>ws' s' ups'. ws' \<noteq> [] \<and> st' = merge_cfg bs i ws' [] s' ups' \<and>
             served ?K i ws' \<and> ?R = merge_rest bs i ws' [] s' ups' \<and>
             (length ups' < length ups \<or> (ups' = ups \<and> ws' = ws))"
      then obtain ws' s' ups' where ne: "ws' \<noteq> []"
        and st': "st' = merge_cfg bs i ws' [] s' ups'"
        and sv': "served ?K i ws'" and R: "?R = merge_rest bs i ws' [] s' ups'"
        and m: "length ups' < length ups \<or> (ups' = ups \<and> ws' = ws)"
        by (elim exE conjE)
      let ?j = "next_it ?K i"
      from served_next [OF sv' ne] obtain ws'' where ws': "ws' = ?j # ws''"
        and sv'': "served ?K ?j ws''"
        by blast
      have adv: "?adv = merge_cfg bs ?j (?j # ws'') [] s' ups'"
        unfolding st' ws' by (simp add: merge_cfg_advance next_it_def)
      have loop2: "merge_loop bs ?adv = merge_loop bs (merge_cfg bs ?j ws'' ((bs ! ?j) s') s' ups')"
        unfolding adv by (rule merge_loop_take [OF sv''])
      have less: "length ups' * Suc ?K + length ws'' < length ups * Suc ?K + length ws"
        using m
      proof
        assume "length ups' < length ups"
        then show ?thesis using served_length [OF sv''] by (rule measure_less)
      next
        assume "ups' = ups \<and> ws' = ws"
        then show ?thesis using ws' by auto
      qed
      from less.hyps [OF less sv'', of "(bs ! ?j) s'" s'] obtain r' st''
        where run': "merge_loop bs (merge_cfg bs ?j ws'' ((bs ! ?j) s') s' ups') = Some (r', st'')"
          and post': "merge_post bs (merge_rest bs ?j ws'' ((bs ! ?j) s') s' ups') r' st''"
        by blast
      have "?R = merge_rest bs ?j ws'' ((bs ! ?j) s') s' ups'"
        unfolding R ws' by (rule merge_rest_take)
      with post' have "merge_post bs ?R r' st''" by simp
      moreover have "merge_loop bs ?cfg = Some (r', st'')"
        using loop loop2 run' by simp
      ultimately show ?thesis by blast
    qed
  qed
qed

lemma pulls_partial_done:
  "m_done st \<Longrightarrow> pulls_partial (op_merge_next bs) n st = Some (replicate n None)"
  by (induction n) (simp_all add: op_merge_next_def)

lemma pulls_partial_served:
  assumes "served (length bs) i ws"
  shows "pulls_partial (op_merge_next bs) n (merge_cfg bs i ws p s ups) =
         Some (map Some (take n (merge_rest bs i ws p s ups)) @
               replicate (n - length (merge_rest bs i ws p s ups)) None)"
  using assms
proof (induction n arbitrary: i ws p s ups)
  case 0
  show ?case by simp
next
  case (Suc n)
  let ?R = "merge_rest bs i ws p s ups"
  from merge_loop_served [OF Suc.prems, of p s ups] obtain r st'
    where run: "merge_loop bs (merge_cfg bs i ws p s ups) = Some (r, st')"
      and post: "merge_post bs ?R r st'"
    by blast
  have nxt: "op_merge_next bs (merge_cfg bs i ws p s ups) = Some (r, st')"
    using run by (simp add: op_merge_next_def)
  show ?case
  proof (cases ?R)
    case Nil
    with post have "r = None" "m_done st'" by (simp_all add: merge_post_def)
    then show ?thesis
      using nxt Nil pulls_partial_done [of st' bs n] by (simp add: replicate_append_same)
  next
    case (Cons x xs)
    from post [unfolded merge_post_def Cons list.case]
    obtain i' ws' p' s' ups' where r: "r = Some x"
      and st': "st' = merge_cfg bs i' ws' p' s' ups'"
      and sv': "served (length bs) i' ws'" and xs: "merge_rest bs i' ws' p' s' ups' = xs"
      by (elim exE conjE)
    from Suc.IH [OF sv', of p' s' ups']
    show ?thesis using nxt Cons r st' xs by simp
  qed
qed

lemma file_of_empty: "file_of (length bs) {} s = map (\<lambda>b. None) bs"
  by (rule nth_equalityI) simp_all

lemma op_merge_init_cfg:
  "op_merge_init bs ups = merge_cfg bs 0 [] [] s ups"
  by (simp add: op_merge_init_def merge_cfg_def file_of_empty map_Nil_update)


subsection \<open>What a merge emits\<close>

text \<open>
  Claim C3, as stated: the merge emits results by taking one result from each branch
  in rotation, one result per branch per visit, until all branches are drained.  It
  fails when a branch has two results for a stack: with the branches \<open>s + 1, s + 2\<close>
  and \<open>s + 10\<close> on the stack \<open>0\<close> the operator returns 1, 2, 10 and then null, where one
  result per branch per visit gives 1, 10, 2.
\<close>

theorem merge_not_round_robin:
  "pulls_partial (op_merge_next example_merge) 4 (op_merge_init example_merge [0]) =
     Some [Some 1, Some 2, Some 10, None] \<and>
   round_robin (map (\<lambda>b. b 0) example_merge) = [1, 10, 2]"
  by code_simp


text \<open>
  Claim C3, amended.  With at least one branch, every call of \<^verbatim>\<open>next ()\<close> returns, and
  the calls return, for each upstream stack in turn, all results of a branch before
  any result of the next branch in rotation, each branch visited once for the stack
  (the rotation starts at the first branch for the first stack and one branch earlier
  for each following stack), and null from then on.
\<close>

theorem merge_branch_by_branch:
  fixes bs :: "('s \<Rightarrow> 's list) list"
  assumes "bs \<noteq> []"
  shows "pulls_partial (op_merge_next bs) n (op_merge_init bs ups) =
         Some (map Some (take n (merge_results bs 0 ups)) @
               replicate (n - length (merge_results bs 0 ups)) None)"
proof -
  fix s :: 's
  from assms have "served (length bs) 0 []" by (simp add: served_Nil)
  from pulls_partial_served [OF this, where n = n and p = "[]" and s = s and ups = ups]
  show ?thesis
    by (simp add: op_merge_init_cfg [of bs ups s] merge_rest_def)
qed


theorem merge_branch_by_branch_witness:
  "example_merge \<noteq> [] \<and>
   pulls_partial (op_merge_next example_merge) 7 (op_merge_init example_merge [0, 100]) =
     Some [Some 1, Some 2, Some 10, Some 110, Some 101, Some 102, None]"
  using merge_branch_by_branch [of example_merge 7 "[0, 100]"]
  by (simp add: example_merge_def rotate1_def)

end
